theory Spec2Isabelle
  imports Main "HOL-Library.AList" "HOL-Library.Sublist"
begin

section \<open>The reactive runtime the reconciler runs on\<close>

text \<open>
  Both source files import their primitives (\<^verbatim>\<open>effectScope\<close>, \<^verbatim>\<open>onScopeDispose\<close>,
  \<^verbatim>\<open>watch\<close>, \<^verbatim>\<open>watchEffect\<close>, \<^verbatim>\<open>getCurrentScope\<close>) from the \<^verbatim>\<open>vue\<close> package, which is
  not part of the repository. This section gives those primitives as state transformers
  on an explicit store of scopes; the sections after it embed the two versions of
  \<^verbatim>\<open>useScopePerKey\<close> line by line.
\<close>

type_synonym sid = nat

text \<open>
  A disposal hook is either one that the caller's handler registered in its scope (known
  only by a marker) or the closure of \<^verbatim>\<open>deep-reactivity.ts\<close> lines 34-38, which captures
  the key.
\<close>

datatype 'k hook = UserHook nat | SelfRemove 'k

text \<open>
  Modelled from the spec: the scope object of the runtime (section 3, "Scope", and the
  contract of section 6). A scope is live or inert, owns disposal callbacks in
  registration order, knows the scopes created while it was the active scope, and may own
  the reconciler's top-level watcher.
\<close>

record 'k scope =
  active :: bool
  watcher :: bool
  cleanups :: "'k hook list"
  scopes :: "sid list"
  parent :: "sid option"

text \<open>
  What an observer can see happen, in order: a scope is created for a key, the handler is
  invoked for a key inside a scope, a handler's disposal hook fires, a scope becomes inert.
\<close>

datatype 'k event = Created sid 'k | Invoked 'k sid | Fired sid nat | Stopped sid

datatype 'k error = HandlerFailure 'k | TypeError

text \<open>
  The whole state: the object held by the \<^verbatim>\<open>input\<close> ref (an object is its entries in key
  order), the store of scopes (a scope's identity is its index), the \<^verbatim>\<open>childScopes\<close> map of
  the closure (a JavaScript \<^verbatim>\<open>Map\<close> keeps insertion order), whether the top-level watcher
  still runs, and the events so far.
\<close>

record ('k, 'v) runtime =
  input :: "('k \<times> 'v) list"
  heap :: "'k scope list"
  childScopes :: "('k \<times> sid) list"
  watching :: bool
  trace :: "'k event list"

definition Object_keys :: "('k \<times> 'v) list \<Rightarrow> 'k list" where
  "Object_keys obj = map fst obj"

definition scope_at :: "('k, 'v) runtime \<Rightarrow> sid \<Rightarrow> 'k scope option" where
  "scope_at st s = (if s < length (heap st) then Some (heap st ! s) else None)"

definition is_active :: "('k, 'v) runtime \<Rightarrow> sid \<Rightarrow> bool" where
  "is_active st s = (case scope_at st s of None \<Rightarrow> False | Some sc \<Rightarrow> active sc)"

definition upd_scope :: "sid \<Rightarrow> ('k scope \<Rightarrow> 'k scope) \<Rightarrow> ('k, 'v) runtime \<Rightarrow> ('k, 'v) runtime" where
  "upd_scope s f st = st\<lparr>heap := (heap st)[s := f (heap st ! s)]\<rparr>"

definition emit :: "'k event \<Rightarrow> ('k, 'v) runtime \<Rightarrow> ('k, 'v) runtime" where
  "emit e st = st\<lparr>trace := trace st @ [e]\<rparr>"

text \<open>
  Modelled from the spec: \<^verbatim>\<open>createScope\<close> of section 6 (vue's \<^verbatim>\<open>effectScope()\<close>). The new
  scope is live and empty; when some scope is the active one at the call (\<open>amb\<close>), the
  new scope is recorded among that scope's children, so that stopping the outer scope
  reaches it.
\<close>

definition effectScope :: "sid option \<Rightarrow> ('k, 'v) runtime \<Rightarrow> sid \<times> ('k, 'v) runtime" where
  "effectScope amb st =
     (let s = length (heap st);
          st1 = st\<lparr>heap := heap st @
                  [\<lparr>active = True, watcher = False, cleanups = [], scopes = [], parent = amb\<rparr>]\<rparr>
      in (s, case amb of
               None \<Rightarrow> st1
             | Some p \<Rightarrow> upd_scope p (\<lambda>sc. sc\<lparr>scopes := scopes sc @ [s]\<rparr>) st1))"

text \<open>
  Modelled from the spec: \<^verbatim>\<open>registerDisposalHook\<close> of section 6 (vue's \<^verbatim>\<open>onScopeDispose\<close>),
  called while scope \<open>s\<close> is the active one: the callback is pushed on that scope's list.
\<close>

definition onScopeDispose :: "sid \<Rightarrow> 'k hook \<Rightarrow> ('k, 'v) runtime \<Rightarrow> ('k, 'v) runtime" where
  "onScopeDispose s h st = upd_scope s (\<lambda>sc. sc\<lparr>cleanups := cleanups sc @ [h]\<rparr>) st"

subsection \<open>The \<^verbatim>\<open>childScopes\<close> map\<close>

definition has :: "('k, 'v) runtime \<Rightarrow> 'k \<Rightarrow> bool" where
  "has st k = (map_of (childScopes st) k \<noteq> None)"

definition get_child :: "('k, 'v) runtime \<Rightarrow> 'k \<Rightarrow> sid option" where
  "get_child st k = map_of (childScopes st) k"

definition set_child :: "'k \<Rightarrow> sid \<Rightarrow> ('k, 'v) runtime \<Rightarrow> ('k, 'v) runtime" where
  "set_child k s st = st\<lparr>childScopes := AList.update k s (childScopes st)\<rparr>"

definition delete_child :: "'k \<Rightarrow> ('k, 'v) runtime \<Rightarrow> ('k, 'v) runtime" where
  "delete_child k st = st\<lparr>childScopes := AList.delete k (childScopes st)\<rparr>"

definition keys_of :: "('k, 'v) runtime \<Rightarrow> 'k list" where
  "keys_of st = map fst (childScopes st)"

subsection \<open>Stopping a scope\<close>

text \<open>
  Modelled from the spec: \<^verbatim>\<open>disposeScope\<close> of section 6 (vue's \<^verbatim>\<open>scope.stop()\<close>): a no-op on
  an inert scope; otherwise the scope becomes inert, the watcher it owns is cancelled, its
  disposal callbacks run in registration order, each once, the scopes created under it are
  stopped, and it leaves its parent's list unless the parent is the one stopping it.

  The hook of \<^verbatim>\<open>deep-reactivity.ts\<close> calls \<^verbatim>\<open>stop()\<close> again from inside a running \<^verbatim>\<open>stop()\<close>, so
  the calls nest. The nesting is written as a list of pending tasks, the head being what
  runs next: \<open>Stop s fromParent\<close> is a call of \<^verbatim>\<open>s.stop(fromParent)\<close>, \<open>Hook s h\<close> runs one
  callback of \<open>s\<close>, \<open>Delete k\<close> is line 37 (\<^verbatim>\<open>childScopes.delete(key)\<close>) waiting for the
  \<^verbatim>\<open>stop()\<close> of line 36 to return, \<open>Finish s fromParent\<close> is the end of \<^verbatim>\<open>s.stop\<close>.
\<close>

datatype 'k task = Stop sid bool | Hook sid "'k hook" | Delete 'k | Finish sid bool

text \<open>
  Modelled from the spec: the first step of \<^verbatim>\<open>disposeScope\<close>, in the reading in which each
  callback runs exactly once (section 3) and disposal is safe on a scope that has already
  begun disposing itself (section 4.1, step 4): the scope is marked inert before its
  callbacks run, so a nested \<^verbatim>\<open>stop()\<close> of the same scope does nothing. This is the order
  of vue from version 3.5.13 on. Section 6 words the order the other way round; that
  reading is \<open>exec_spec\<close> below. The two differ only when a callback stops the scope it
  belongs to, which the hook of \<^verbatim>\<open>deep-reactivity.ts\<close> does. The watcher the scope owns is
  cancelled.
\<close>

definition deactivate :: "sid \<Rightarrow> ('k, 'v) runtime \<Rightarrow> ('k, 'v) runtime" where
  "deactivate s st =
     emit (Stopped s)
       ((upd_scope s (\<lambda>sc. sc\<lparr>active := False\<rparr>) st)
          \<lparr>watching := (watching st \<and> \<not> watcher (heap st ! s))\<rparr>)"

text \<open>
  Modelled from the spec: the last step of \<^verbatim>\<open>disposeScope\<close>. The scope forgets what it owned
  and, unless its parent is the one stopping it, leaves its parent's list of children.
\<close>

definition detach :: "sid \<Rightarrow> sid \<Rightarrow> ('k, 'v) runtime \<Rightarrow> ('k, 'v) runtime" where
  "detach p s st = upd_scope p (\<lambda>sc. sc\<lparr>scopes := removeAll s (scopes sc)\<rparr>) st"

definition finish :: "sid \<Rightarrow> bool \<Rightarrow> ('k, 'v) runtime \<Rightarrow> ('k, 'v) runtime" where
  "finish s fromParent st =
     (let st1 = (case parent (heap st ! s) of
                   None \<Rightarrow> st
                 | Some p \<Rightarrow> if fromParent then st else detach p s st)
      in upd_scope s (\<lambda>sc. sc\<lparr>watcher := False, cleanups := [], scopes := [], parent := None\<rparr>) st1)"

text \<open>
  Modelled from the spec: what \<^verbatim>\<open>disposeScope\<close> does between the two, in order: the scope's
  callbacks in registration order, then a stop of each child as its parent.
\<close>

definition stop_tasks :: "sid \<Rightarrow> bool \<Rightarrow> 'k scope \<Rightarrow> 'k task list" where
  "stop_tasks s fromParent sc =
     map (Hook s) (cleanups sc) @ map (\<lambda>c. Stop c True) (scopes sc) @ [Finish s fromParent]"

text \<open>
  The measure of the recursion below: every nested stop turns a live scope inert, and
  between two such stops the pending tasks shrink.
\<close>

fun weight :: "'k task \<Rightarrow> nat" where
  "weight (Hook s (SelfRemove k)) = 3"
| "weight t = 1"

definition nactive :: "('k, 'v) runtime \<Rightarrow> nat" where
  "nactive st = length (filter active (heap st))"

text \<open>
  Modelled from the spec: \<^verbatim>\<open>disposeScope\<close> with its nested calls, as the run of a task list.
  The fourth equation is lines 35-37 of \<^verbatim>\<open>deep-reactivity.ts\<close>: return when the key is not
  registered; otherwise stop the registered scope, then delete the entry.
\<close>

function exec :: "'k task list \<Rightarrow> ('k, 'v) runtime \<Rightarrow> ('k, 'v) runtime" where
  "exec [] st = st"
| "exec (Stop s fromParent # ts) st =
     (if is_active st s
      then exec (stop_tasks s fromParent (heap st ! s) @ ts) (deactivate s st)
      else exec ts st)"
| "exec (Hook s (UserHook m) # ts) st = exec ts (emit (Fired s m) st)"
| "exec (Hook s (SelfRemove k) # ts) st =
     (case get_child st k of
        None \<Rightarrow> exec ts st
      | Some t \<Rightarrow> exec (Stop t False # Delete k # ts) st)"
| "exec (Delete k # ts) st = exec ts (delete_child k st)"
| "exec (Finish s fromParent # ts) st = exec ts (finish s fromParent st)"
  by pat_completeness auto

lemma count_list_update:
  "length (filter P (xs[i := y])) + (if i < length xs \<and> P (xs ! i) then 1 else 0) =
   length (filter P xs) + (if i < length xs \<and> P y then 1 else 0)"
proof (induction xs arbitrary: i)
  case Nil
  show ?case by simp
next
  case (Cons x xs)
  show ?case
  proof (cases i)
    case 0
    then show ?thesis by simp
  next
    case (Suc j)
    with Cons.IH [of j] show ?thesis by (auto split: if_splits)
  qed
qed

lemma nactive_emit [simp]: "nactive (emit e st) = nactive st"
  by (simp add: nactive_def emit_def)

lemma nactive_delete_child [simp]: "nactive (delete_child k st) = nactive st"
  by (simp add: nactive_def delete_child_def)

lemma nactive_upd_same:
  assumes "\<And>sc. active (f sc) = active sc"
  shows "nactive (upd_scope s f st) = nactive st"
  using count_list_update [of active "heap st" s "f (heap st ! s)"] assms
  by (simp add: nactive_def upd_scope_def split: if_splits)

lemma nactive_finish [simp]: "nactive (finish s fp st) = nactive st"
  by (simp add: finish_def detach_def Let_def nactive_upd_same split: option.splits)

lemma nactive_deactivate:
  "is_active st s \<Longrightarrow> nactive (deactivate s st) < nactive st"
  using count_list_update [of active "heap st" s "(heap st ! s)\<lparr>active := False\<rparr>"]
  by (simp add: deactivate_def nactive_def upd_scope_def emit_def is_active_def scope_at_def
      split: if_splits)

termination exec
proof (relation "measures [\<lambda>(ts, st). nactive st, \<lambda>(ts, st). sum_list (map weight ts)]",
    goal_cases)
  case 1
  show ?case by simp
next
  case (2 s fromParent ts st)
  then show ?case by (simp add: nactive_deactivate)
next
  case (3 s fromParent ts st)
  then show ?case by simp
next
  case (4 s m ts st)
  show ?case by simp
next
  case (5 s k ts st)
  show ?case by simp
next
  case (6 s k ts st t)
  show ?case by simp
next
  case (7 k ts st)
  show ?case by simp
next
  case (8 s fromParent ts st)
  show ?case by simp
qed

text \<open>Modelled from the spec: a call of \<^verbatim>\<open>scope.stop()\<close> from outside any \<^verbatim>\<open>stop()\<close>.\<close>

definition stopScope :: "sid \<Rightarrow> ('k, 'v) runtime \<Rightarrow> ('k, 'v) runtime" where
  "stopScope s st = exec [Stop s False] st"


subsection \<open>Stopping a scope, inert last\<close>

text \<open>
  The equations of \<open>exec\<close> mark a scope inert before its callbacks run, which is the order
  of vue from version 3.5.13 on. Section 6 of the spec words \<^verbatim>\<open>disposeScope\<close> the other way
  round ("cancel all owned computations and run all registered disposal hooks, then mark
  the scope inert"), which is also what earlier versions of vue do. In that order a
  callback that stops its own scope finds it still live, so the recursion need not end;
  \<open>exec_spec\<close> runs a task list in that order, for at most \<open>n\<close> steps, and gives \<open>None\<close>
  when the steps do not suffice.
\<close>

text \<open>Modelled from the spec: the owned computations of the scope are cancelled.\<close>

definition cancel_effects :: "sid \<Rightarrow> ('k, 'v) runtime \<Rightarrow> ('k, 'v) runtime" where
  "cancel_effects s st = st\<lparr>watching := (watching st \<and> \<not> watcher (heap st ! s))\<rparr>"

text \<open>Modelled from the spec: the end of \<^verbatim>\<open>disposeScope\<close>, where the scope is marked inert.\<close>

definition finish_spec :: "sid \<Rightarrow> bool \<Rightarrow> ('k, 'v) runtime \<Rightarrow> ('k, 'v) runtime" where
  "finish_spec s fromParent st =
     emit (Stopped s) (upd_scope s (\<lambda>sc. sc\<lparr>active := False\<rparr>) (finish s fromParent st))"

text \<open>
  Modelled from the spec: \<^verbatim>\<open>disposeScope\<close> in the order of section 6. The fifth equation is
  again lines 35-37 of \<^verbatim>\<open>deep-reactivity.ts\<close>.
\<close>

fun exec_spec :: "nat \<Rightarrow> 'k task list \<Rightarrow> ('k, 'v) runtime \<Rightarrow> ('k, 'v) runtime option" where
  "exec_spec 0 ts st = None"
| "exec_spec (Suc n) [] st = Some st"
| "exec_spec (Suc n) (Stop s fromParent # ts) st =
     (if is_active st s
      then exec_spec n (stop_tasks s fromParent (heap st ! s) @ ts) (cancel_effects s st)
      else exec_spec n ts st)"
| "exec_spec (Suc n) (Hook s (UserHook m) # ts) st = exec_spec n ts (emit (Fired s m) st)"
| "exec_spec (Suc n) (Hook s (SelfRemove k) # ts) st =
     (case get_child st k of
        None \<Rightarrow> exec_spec n ts st
      | Some t \<Rightarrow> exec_spec n (Stop t False # Delete k # ts) st)"
| "exec_spec (Suc n) (Delete k # ts) st = exec_spec n ts (delete_child k st)"
| "exec_spec (Suc n) (Finish s fromParent # ts) st = exec_spec n ts (finish_spec s fromParent st)"

section \<open>The caller's handler\<close>

text \<open>
  The handler is the caller's code. What the reconciler can observe of one invocation is
  which disposal hooks it registered in the scope it ran in, and whether it then threw. It
  is given the key, as in the source, and the identity of the scope it runs in (which it
  can read with \<^verbatim>\<open>getCurrentScope()\<close>), so its behaviour may differ from one invocation to the
  next. It has no access to \<^verbatim>\<open>childScopes\<close>, a local of \<^verbatim>\<open>useScopePerKey\<close>.

  A \<open>reaction\<close> is the behaviour of a handler that leaves the watched ref alone. A handler
  that assigns the ref makes the \<^verbatim>\<open>flush: 'sync'\<close> callback of \<^verbatim>\<open>deep-reactivity.ts\<close> run
  again inside the running one; such handlers are \<open>reaction_w\<close> below, and \<open>addLoop_watch_re\<close>
  is the loop with that re-entry.
\<close>

record reaction =
  registers :: "nat list"
  throws :: bool

type_synonym 'k handler = "'k \<Rightarrow> sid \<Rightarrow> reaction"

definition invoke :: "'k handler \<Rightarrow> 'k \<Rightarrow> sid \<Rightarrow> ('k, 'v) runtime \<Rightarrow> ('k, 'v) runtime" where
  "invoke h key s st =
     fold (\<lambda>m. onScopeDispose s (UserHook m)) (registers (h key s)) (emit (Invoked key s) st)"

section \<open>\<^verbatim>\<open>useScopePerKey\<close> of \<^verbatim>\<open>src/deep-reactivity.ts\<close> (built on \<^verbatim>\<open>watch\<close>)\<close>

text \<open>Lines 31-39: the body given to \<^verbatim>\<open>newScope.run\<close>, which runs it only in a live scope.\<close>

definition newScope_run :: "'k handler \<Rightarrow> 'k \<Rightarrow> sid \<Rightarrow> ('k, 'v) runtime \<Rightarrow> 'k error option \<times> ('k, 'v) runtime" where
  "newScope_run h key newScope st =
     (if is_active st newScope
      then (let st1 = invoke h key newScope st
            in if throws (h key newScope)
               then (Some (HandlerFailure key), st1)
               else (None, onScopeDispose newScope (SelfRemove key) st1))
      else (None, st))"

text \<open>Lines 29-39: one turn of the loop over \<^verbatim>\<open>keysToAdd\<close>.\<close>

definition addKey_watch :: "'k handler \<Rightarrow> sid option \<Rightarrow> 'k \<Rightarrow> ('k, 'v) runtime \<Rightarrow> 'k error option \<times> ('k, 'v) runtime" where
  "addKey_watch h amb key st =
     (let (newScope, st1) = effectScope amb st;
          st2 = set_child key newScope (emit (Created newScope key) st1)
      in newScope_run h key newScope st2)"

text \<open>Line 28: the loop ends at the first exception, which leaves the callback.\<close>

fun addLoop_watch :: "'k handler \<Rightarrow> sid option \<Rightarrow> 'k list \<Rightarrow> ('k, 'v) runtime \<Rightarrow> 'k error option \<times> ('k, 'v) runtime" where
  "addLoop_watch h amb [] st = (None, st)"
| "addLoop_watch h amb (key # keys) st =
     (case addKey_watch h amb key st of
        (Some e, st') \<Rightarrow> (Some e, st')
      | (None, st') \<Rightarrow> addLoop_watch h amb keys st')"

text \<open>Lines 25-41: the callback of \<^verbatim>\<open>watch\<close>, given the value of the computed \<^verbatim>\<open>inputKeys\<close>.\<close>

definition pass_watch :: "'k handler \<Rightarrow> sid option \<Rightarrow> 'k list \<Rightarrow> ('k, 'v) runtime \<Rightarrow> 'k error option \<times> ('k, 'v) runtime" where
  "pass_watch h amb inputKeys st =
     (let keysToAdd = filter (\<lambda>key. \<not> has st key) inputKeys
      in addLoop_watch h amb keysToAdd st)"

text \<open>
  Modelled from the spec: \<^verbatim>\<open>onChange\<close> of section 6 with \<^verbatim>\<open>immediate\<close> and \<^verbatim>\<open>flush: 'sync'\<close>
  (vue's \<^verbatim>\<open>watch\<close>): while the watcher is not cancelled, a change of the watched object runs
  the callback at once, under whichever scope is active where the change is made.
\<close>

definition observe_watch :: "'k handler \<Rightarrow> sid option \<Rightarrow> ('k, 'v) runtime \<Rightarrow> 'k error option \<times> ('k, 'v) runtime" where
  "observe_watch h amb st =
     (if watching st then pass_watch h amb (Object_keys (input st)) st else (None, st))"

text \<open>
  Lines 18-46. The result is the exception of the immediate first run of the callback, if
  any, the parent scope (which the returned closure captures) and the state. The first
  run happens inside \<^verbatim>\<open>parentScope.run\<close>, so \<^verbatim>\<open>parentScope\<close> is the active scope there.
\<close>

definition useScopePerKey_watch :: "'k handler \<Rightarrow> sid option \<Rightarrow> ('k, 'v) runtime \<Rightarrow> 'k error option \<times> sid \<times> ('k, 'v) runtime" where
  "useScopePerKey_watch h amb st =
     (let (parentScope, st1) = effectScope amb (st\<lparr>childScopes := []\<rparr>);
          st2 = (upd_scope parentScope (\<lambda>sc. sc\<lparr>watcher := True\<rparr>) st1)\<lparr>watching := True\<rparr>;
          (e, st3) = observe_watch h (Some parentScope) st2
      in (e, parentScope, st3))"

text \<open>Line 46: the returned function.\<close>

definition dispose_watch :: "sid \<Rightarrow> ('k, 'v) runtime \<Rightarrow> ('k, 'v) runtime" where
  "dispose_watch parentScope st = stopScope parentScope st"

subsection \<open>With a handler that assigns the watched ref\<close>

text \<open>
  One invocation of such a handler registers its hooks, may assign a new object to
  \<^verbatim>\<open>input.value\<close>, and then returns or throws.
\<close>

record ('k, 'v) reaction_w =
  hooks_w :: "nat list"
  assigns :: "('k \<times> 'v) list option"
  throws_w :: bool

type_synonym ('k, 'v) handler_w = "'k \<Rightarrow> sid \<Rightarrow> ('k, 'v) reaction_w"

definition invoke_w :: "('k, 'v) handler_w \<Rightarrow> 'k \<Rightarrow> sid \<Rightarrow> ('k, 'v) runtime \<Rightarrow> ('k, 'v) runtime" where
  "invoke_w h key s st =
     (let st1 = fold (\<lambda>m. onScopeDispose s (UserHook m)) (hooks_w (h key s))
                  (emit (Invoked key s) st)
      in case assigns (h key s) of None \<Rightarrow> st1 | Some obj \<Rightarrow> st1\<lparr>input := obj\<rparr>)"

text \<open>
  Lines 26-40 with the re-entry. The assignment inside \<^verbatim>\<open>handler(key)\<close> (line 32) runs the
  callback at once, while the watcher is not cancelled: line 26 filters the new keys against
  the registry as it is then, and the scopes the inner run creates are created while the
  handler's scope is the active one. An exception of the inner run leaves the handler. When
  the inner run is over, the outer loop goes on with the \<^verbatim>\<open>keysToAdd\<close> it computed before
  (line 28); lines 29-30 do not look at the registry again. The first argument bounds the
  number of loop turns, and the result is \<open>None\<close> when it does not suffice.
\<close>

fun addLoop_watch_re :: "nat \<Rightarrow> ('k, 'v) handler_w \<Rightarrow> sid option \<Rightarrow> 'k list \<Rightarrow> ('k, 'v) runtime \<Rightarrow> ('k error option \<times> ('k, 'v) runtime) option" where
  "addLoop_watch_re 0 h amb keys st = None"
| "addLoop_watch_re (Suc n) h amb [] st = Some (None, st)"
| "addLoop_watch_re (Suc n) h amb (key # keys) st =
     (let (newScope, st1) = effectScope amb st;
          st2 = set_child key newScope (emit (Created newScope key) st1)
      in if is_active st2 newScope
         then (let st3 = invoke_w h key newScope st2
               in case (if assigns (h key newScope) \<noteq> None \<and> watching st3
                        then addLoop_watch_re n h (Some newScope)
                               (filter (\<lambda>k. \<not> has st3 k) (Object_keys (input st3))) st3
                        else Some (None, st3)) of
                    None \<Rightarrow> None
                  | Some (Some e, st4) \<Rightarrow> Some (Some e, st4)
                  | Some (None, st4) \<Rightarrow>
                      if throws_w (h key newScope)
                      then Some (Some (HandlerFailure key), st4)
                      else addLoop_watch_re n h amb keys
                             (onScopeDispose newScope (SelfRemove key) st4))
         else addLoop_watch_re n h amb keys st2)"

text \<open>Lines 18-46 with such a handler: the immediate first run of the callback.\<close>

definition useScopePerKey_watch_re :: "nat \<Rightarrow> ('k, 'v) handler_w \<Rightarrow> sid option \<Rightarrow> ('k, 'v) runtime \<Rightarrow> ('k error option \<times> sid \<times> ('k, 'v) runtime) option" where
  "useScopePerKey_watch_re n h amb st =
     (let (parentScope, st1) = effectScope amb (st\<lparr>childScopes := []\<rparr>);
          st2 = (upd_scope parentScope (\<lambda>sc. sc\<lparr>watcher := True\<rparr>) st1)\<lparr>watching := True\<rparr>;
          keysToAdd = filter (\<lambda>key. \<not> has st2 key) (Object_keys (input st2))
      in map_option (\<lambda>(e, st3). (e, parentScope, st3))
           (addLoop_watch_re n h (Some parentScope) keysToAdd st2))"

text \<open>The handler of \<open>h\<close> with its assignments left out.\<close>

definition silent :: "('k, 'v) handler_w \<Rightarrow> 'k handler" where
  "silent h key s = \<lparr>registers = hooks_w (h key s), throws = throws_w (h key s)\<rparr>"

text \<open>Line 46 with \<^verbatim>\<open>stop()\<close> in the order of section 6 of the spec.\<close>

definition dispose_watch_spec :: "nat \<Rightarrow> sid \<Rightarrow> ('k, 'v) runtime \<Rightarrow> ('k, 'v) runtime option" where
  "dispose_watch_spec n parentScope st = exec_spec n [Stop parentScope False] st"

section \<open>\<^verbatim>\<open>useScopePerKey\<close> of the second source file (built on \<^verbatim>\<open>watchEffect\<close>)\<close>

text \<open>Lines 26-28: one turn of the loop over \<^verbatim>\<open>keysToRemove\<close>.\<close>

definition removeKey_effect :: "'k \<Rightarrow> ('k, 'v) runtime \<Rightarrow> ('k, 'v) runtime" where
  "removeKey_effect key st =
     (case get_child st key of
        None \<Rightarrow> st
      | Some s \<Rightarrow> delete_child key (stopScope s st))"

text \<open>Lines 32-36: one turn of the loop over \<^verbatim>\<open>keysToAdd\<close>.\<close>

definition addKey_effect :: "'k handler \<Rightarrow> sid option \<Rightarrow> 'k \<Rightarrow> ('k, 'v) runtime \<Rightarrow> 'k error option \<times> ('k, 'v) runtime" where
  "addKey_effect h amb key st =
     (if has st key then (None, st)
      else (let (s, st1) = effectScope amb st;
                st2 = set_child key s (emit (Created s key) st1)
            in case get_child st2 key of
                 None \<Rightarrow> (Some TypeError, st2)
               | Some t \<Rightarrow>
                   if is_active st2 t
                   then (if throws (h key t) then Some (HandlerFailure key) else None,
                         invoke h key t st2)
                   else (None, st2)))"

fun addLoop_effect :: "'k handler \<Rightarrow> sid option \<Rightarrow> 'k list \<Rightarrow> ('k, 'v) runtime \<Rightarrow> 'k error option \<times> ('k, 'v) runtime" where
  "addLoop_effect h amb [] st = (None, st)"
| "addLoop_effect h amb (key # keys) st =
     (case addKey_effect h amb key st of
        (Some e, st') \<Rightarrow> (Some e, st')
      | (None, st') \<Rightarrow> addLoop_effect h amb keys st')"

text \<open>Lines 17-37: the function given to \<^verbatim>\<open>watchEffect\<close>.\<close>

definition pass_effect :: "'k handler \<Rightarrow> sid option \<Rightarrow> ('k, 'v) runtime \<Rightarrow> 'k error option \<times> ('k, 'v) runtime" where
  "pass_effect h amb st =
     (let inputKeys = Object_keys (input st);
          runningKeys = keys_of st;
          keysToAdd = filter (\<lambda>key. key \<notin> set runningKeys) inputKeys;
          keysToRemove = filter (\<lambda>key. key \<notin> set inputKeys) runningKeys
      in addLoop_effect h amb keysToAdd (fold removeKey_effect keysToRemove st))"

text \<open>
  Modelled from the spec: \<^verbatim>\<open>onChange\<close> of section 6 for an effect (vue's \<^verbatim>\<open>watchEffect\<close>): the
  function runs once at once and again after each change of what it read, until the
  returned handle is called.
\<close>

definition observe_effect :: "'k handler \<Rightarrow> sid option \<Rightarrow> ('k, 'v) runtime \<Rightarrow> 'k error option \<times> ('k, 'v) runtime" where
  "observe_effect h amb st = (if watching st then pass_effect h amb st else (None, st))"

text \<open>
  Lines 12-41. \<^verbatim>\<open>getCurrentScope() ?? effectScope()\<close>: the caller's active scope when there
  is one, a new scope otherwise. \<^verbatim>\<open>run\<close> does nothing in an inert scope and returns
  \<^verbatim>\<open>undefined\<close> there, which the \<^verbatim>\<open>!\<close> of line 39 lets through. The second part of the
  result is what is returned: the watcher's handle, named by the scope that owns the
  watcher, or nothing.
\<close>

definition useScopePerKey_effect :: "'k handler \<Rightarrow> sid option \<Rightarrow> ('k, 'v) runtime \<Rightarrow> 'k error option \<times> sid option \<times> ('k, 'v) runtime" where
  "useScopePerKey_effect h amb st =
     (let (currentScope, st1) = (case amb of Some c \<Rightarrow> (c, st) | None \<Rightarrow> effectScope None st);
          st2 = st1\<lparr>childScopes := []\<rparr>
      in if is_active st2 currentScope
         then (let st3 = (upd_scope currentScope (\<lambda>sc. sc\<lparr>watcher := True\<rparr>) st2)\<lparr>watching := True\<rparr>;
                   (e, st4) = observe_effect h (Some currentScope) st3
               in (e, Some currentScope, st4))
         else (None, None, st2))"

text \<open>
  Modelled from the spec: the handle that \<^verbatim>\<open>watchEffect\<close> returns. It cancels the one watcher
  it was returned for, and touches no scope.
\<close>

definition dispose_effect :: "sid \<Rightarrow> ('k, 'v) runtime \<Rightarrow> ('k, 'v) runtime" where
  "dispose_effect currentScope st =
     (upd_scope currentScope (\<lambda>sc. sc\<lparr>watcher := False\<rparr>) st)\<lparr>watching := False\<rparr>"

text \<open>
  Line 41, seen from the caller: a call of what \<^verbatim>\<open>useScopePerKey\<close> returned. Where that is
  the handle, the call is the handle's; where it is \<^verbatim>\<open>undefined\<close>, the call raises a
  \<^verbatim>\<open>TypeError\<close> and changes nothing.
\<close>

definition call_returned_effect :: "sid option \<Rightarrow> ('k, 'v) runtime \<Rightarrow> 'k error option \<times> ('k, 'v) runtime" where
  "call_returned_effect returned st =
     (case returned of
        None \<Rightarrow> (Some TypeError, st)
      | Some currentScope \<Rightarrow> (None, dispose_effect currentScope st))"

section \<open>Runs\<close>

text \<open>
  What the surroundings do to a reconciler: replace the watched object (from code running
  under some scope or none), call the function \<^verbatim>\<open>useScopePerKey\<close> returned, or stop a scope
  they hold (the caller's own scope, or one a handler handed out).
\<close>

datatype ('k, 'v) action = Change "('k \<times> 'v) list" "sid option" | Dispose | StopScope sid

definition runtime0 :: "('k \<times> 'v) list \<Rightarrow> ('k, 'v) runtime" where
  "runtime0 obj = \<lparr>input = obj, heap = [], childScopes = [], watching = False, trace = []\<rparr>"

text \<open>The caller is inside a scope of its own (\<open>inScope\<close>) or not.\<close>

definition entry :: "bool \<Rightarrow> ('k \<times> 'v) list \<Rightarrow> sid option \<times> ('k, 'v) runtime" where
  "entry inScope obj =
     (if inScope
      then (let (c, st) = effectScope None (runtime0 obj) in (Some c, st))
      else (None, runtime0 obj))"

fun step_watch :: "'k handler \<Rightarrow> sid \<Rightarrow> ('k, 'v) action \<Rightarrow> ('k, 'v) runtime \<Rightarrow> ('k, 'v) runtime" where
  "step_watch h p (Change obj amb) st = snd (observe_watch h amb (st\<lparr>input := obj\<rparr>))"
| "step_watch h p Dispose st = dispose_watch p st"
| "step_watch h p (StopScope s) st = stopScope s st"

fun step_effect :: "'k handler \<Rightarrow> sid option \<Rightarrow> ('k, 'v) action \<Rightarrow> ('k, 'v) runtime \<Rightarrow> ('k, 'v) runtime" where
  "step_effect h c (Change obj amb) st = snd (observe_effect h amb (st\<lparr>input := obj\<rparr>))"
| "step_effect h c Dispose st = snd (call_returned_effect c st)"
| "step_effect h c (StopScope s) st = stopScope s st"

definition run_watch :: "'k handler \<Rightarrow> bool \<Rightarrow> ('k \<times> 'v) list \<Rightarrow> ('k, 'v) action list \<Rightarrow> ('k, 'v) runtime" where
  "run_watch h inScope obj acts =
     (let (amb, st0) = entry inScope obj;
          (e, p, st) = useScopePerKey_watch h amb st0
      in fold (step_watch h p) acts st)"

definition run_effect :: "'k handler \<Rightarrow> bool \<Rightarrow> ('k \<times> 'v) list \<Rightarrow> ('k, 'v) action list \<Rightarrow> ('k, 'v) runtime" where
  "run_effect h inScope obj acts =
     (let (amb, st0) = entry inScope obj;
          (e, c, st) = useScopePerKey_effect h amb st0
      in fold (step_effect h c) acts st)"


section \<open>Reading a trace\<close>

text \<open>
  The events of a removal (a scope stops, a disposal hook fires) and those of an addition
  (a scope is created, the handler is invoked).
\<close>

fun removal :: "'k event \<Rightarrow> bool" where
  "removal (Stopped s) = True"
| "removal (Fired s m) = True"
| "removal (Created s k) = False"
| "removal (Invoked k s) = False"

fun addition :: "'k event \<Rightarrow> bool" where
  "addition (Created s k) = True"
| "addition (Invoked k s) = True"
| "addition (Stopped s) = False"
| "addition (Fired s m) = False"

fun live_step :: "'k \<Rightarrow> 'k event \<Rightarrow> sid set \<Rightarrow> sid set" where
  "live_step k (Created s k') L = (if k' = k then insert s L else L)"
| "live_step k (Stopped s) L = L - {s}"
| "live_step k (Invoked k' s) L = L"
| "live_step k (Fired s m) L = L"

text \<open>
  The scopes of key \<open>k\<close> that are live after the events \<open>es\<close>: created for \<open>k\<close> and not
  stopped since.
\<close>

definition live :: "'k event list \<Rightarrow> 'k \<Rightarrow> sid set" where
  "live es k = fold (live_step k) es {}"

text \<open>The keys of an object are distinct; an entry list stands for an object only then.\<close>

definition well_formed :: "('k, 'v) action \<Rightarrow> bool" where
  "well_formed a =
     (case a of Change obj amb \<Rightarrow> distinct (Object_keys obj) | Dispose \<Rightarrow> True | StopScope s \<Rightarrow> True)"

text \<open>The events that a step from \<open>st\<close> to \<open>st'\<close> added.\<close>

definition new_events :: "('k, 'v) runtime \<Rightarrow> ('k, 'v) runtime \<Rightarrow> 'k event list" where
  "new_events st st' = drop (length (trace st)) (trace st')"

section \<open>Reading the store\<close>

text \<open>The disposal callbacks and the children of a scope, empty where there is no scope.\<close>

definition cleanups_of :: "('k, 'v) runtime \<Rightarrow> sid \<Rightarrow> 'k hook list" where
  "cleanups_of st s = (case scope_at st s of None \<Rightarrow> [] | Some sc \<Rightarrow> cleanups sc)"

definition scopes_of :: "('k, 'v) runtime \<Rightarrow> sid \<Rightarrow> sid list" where
  "scopes_of st s = (case scope_at st s of None \<Rightarrow> [] | Some sc \<Rightarrow> scopes sc)"

text \<open>
  Scope \<open>s\<close> is live, registered under \<open>k\<close>, and holds the handler's hooks \<open>ms\<close> followed
  by the self-removing hook of \<open>k\<close>: the state in which line 39 of \<^verbatim>\<open>deep-reactivity.ts\<close>
  leaves a scope whose handler returned.
\<close>

definition self_stopping :: "('k, 'v) runtime \<Rightarrow> sid \<Rightarrow> 'k \<Rightarrow> nat list \<Rightarrow> bool" where
  "self_stopping st s k ms =
     (is_active st s \<and> get_child st k = Some s
      \<and> cleanups_of st s = map UserHook ms @ [SelfRemove k])"


section \<open>A handler for concrete runs\<close>

text \<open>
  A handler that registers one disposal hook per invocation, marked with the identity of
  the scope it ran in, and never throws; and one that throws for the key \<open>b\<close> only.
\<close>

definition marking :: "string handler" where
  "marking key s = \<lparr>registers = [s], throws = False\<rparr>"

definition writing_on_a :: "(string, nat) handler_w" where
  "writing_on_a key s =
     \<lparr>hooks_w = [s],
      assigns = (if key = ''a'' then Some [(''a'', 1), (''b'', 2), (''c'', 3)] else None),
      throws_w = False\<rparr>"

definition failing_on_b :: "string handler" where
  "failing_on_b key s = \<lparr>registers = [s], throws = (key = ''b'')\<rparr>"


section \<open>Basic facts about the runtime\<close>

lemma exec_append: "exec (ts @ us) st = exec us (exec ts st)"
  by (induction ts st rule: exec.induct) (auto split: option.splits)

lemma input_emit [simp]: "input (emit e st) = input st"
  by (simp add: emit_def)
lemma input_upd_scope [simp]: "input (upd_scope s f st) = input st"
  by (simp add: upd_scope_def)
lemma input_delete_child [simp]: "input (delete_child k st) = input st"
  by (simp add: delete_child_def)
lemma input_set_child [simp]: "input (set_child k s st) = input st"
  by (simp add: set_child_def)
lemma input_deactivate [simp]: "input (deactivate s st) = input st"
  by (simp add: deactivate_def)
lemma input_finish [simp]: "input (finish s fp st) = input st"
  by (simp add: finish_def detach_def Let_def split: option.splits)
lemma input_effectScope [simp]: "input (snd (effectScope amb st)) = input st"
  by (simp add: effectScope_def Let_def split: option.splits)
lemma input_onScopeDispose [simp]: "input (onScopeDispose s h st) = input st"
  by (simp add: onScopeDispose_def)

lemma input_exec [simp]: "input (exec ts st) = input st"
  by (induction ts st rule: exec.induct) (auto split: option.splits)

lemma input_fold_hooks [simp]:
  "input (fold (\<lambda>m. onScopeDispose s (UserHook m)) ms st) = input st"
  by (induction ms arbitrary: st) auto

lemma input_invoke [simp]: "input (invoke h k s st) = input st"
  by (simp add: invoke_def)

lemma input_addKey_watch [simp]: "input (snd (addKey_watch h amb k st)) = input st"
  by (simp add: addKey_watch_def newScope_run_def Let_def split: prod.splits)
     (metis input_effectScope snd_conv)

lemma addLoop_watch_preserves:
  assumes "P st" and "\<And>k st. P st \<Longrightarrow> P (snd (addKey_watch h amb k st))"
  shows "P (snd (addLoop_watch h amb ks st))"
  using assms(1)
proof (induction ks arbitrary: st)
  case Nil
  then show ?case by simp
next
  case (Cons k ks)
  obtain e st' where step: "addKey_watch h amb k st = (e, st')"
    by (cases "addKey_watch h amb k st")
  from assms(2) [OF Cons.prems, of k] step have "P st'" by simp
  with Cons.IH [of st'] step show ?case by (cases e) simp_all
qed

lemma input_addLoop_watch [simp]: "input (snd (addLoop_watch h amb ks st)) = input st"
  by (rule addLoop_watch_preserves [where P = "\<lambda>s. input s = input st"]) simp_all

lemma input_removeKey_effect [simp]: "input (removeKey_effect k st) = input st"
  by (simp add: removeKey_effect_def stopScope_def split: option.splits)

lemma input_fold_remove [simp]: "input (fold removeKey_effect ks st) = input st"
  by (induction ks arbitrary: st) auto

lemma input_addKey_effect [simp]: "input (snd (addKey_effect h amb k st)) = input st"
  by (simp add: addKey_effect_def Let_def split: prod.splits option.splits)
     (metis input_effectScope snd_conv)

lemma addLoop_effect_preserves:
  assumes "P st" and "\<And>k st. P st \<Longrightarrow> P (snd (addKey_effect h amb k st))"
  shows "P (snd (addLoop_effect h amb ks st))"
  using assms(1)
proof (induction ks arbitrary: st)
  case Nil
  then show ?case by simp
next
  case (Cons k ks)
  obtain e st' where step: "addKey_effect h amb k st = (e, st')"
    by (cases "addKey_effect h amb k st")
  from assms(2) [OF Cons.prems, of k] step have "P st'" by simp
  with Cons.IH [of st'] step show ?case by (cases e) simp_all
qed

lemma input_addLoop_effect [simp]: "input (snd (addLoop_effect h amb ks st)) = input st"
  by (rule addLoop_effect_preserves [where P = "\<lambda>s. input s = input st"]) simp_all

lemma has_keys_of: "has st k = (k \<in> set (keys_of st))"
  by (simp add: has_def keys_of_def map_of_eq_None_iff)

lemma heap_emit [simp]: "heap (emit e st) = heap st"
  by (simp add: emit_def)
lemma heap_delete_child [simp]: "heap (delete_child k st) = heap st"
  by (simp add: delete_child_def)
lemma heap_set_child [simp]: "heap (set_child k s st) = heap st"
  by (simp add: set_child_def)

lemma is_active_emit [simp]: "is_active (emit e st) s = is_active st s"
  by (simp add: is_active_def scope_at_def)
lemma is_active_delete_child [simp]: "is_active (delete_child k st) s = is_active st s"
  by (simp add: is_active_def scope_at_def)
lemma is_active_set_child [simp]: "is_active (set_child k t st) s = is_active st s"
  by (simp add: is_active_def scope_at_def)

lemma is_active_upd_scope:
  "is_active (upd_scope t f st) s =
     (if s = t \<and> t < length (heap st) then active (f (heap st ! t)) else is_active st s)"
  by (simp add: is_active_def scope_at_def upd_scope_def)

lemma is_active_upd_same [simp]:
  assumes "\<And>sc. active (f sc) = active sc"
  shows "is_active (upd_scope t f st) s = is_active st s"
  by (cases "s = t") (simp_all add: is_active_def scope_at_def upd_scope_def assms)

lemma is_active_finish [simp]: "is_active (finish t fp st) s = is_active st s"
  by (simp add: finish_def detach_def Let_def split: option.splits)

lemma is_active_deactivate:
  "is_active (deactivate t st) s = (s \<noteq> t \<and> is_active st s)"
  by (cases "s = t") (simp_all add: deactivate_def is_active_def scope_at_def upd_scope_def emit_def)

lemma inactive_exec: "\<not> is_active st s \<Longrightarrow> \<not> is_active (exec ts st) s"
  by (induction ts st rule: exec.induct) (auto simp: is_active_deactivate split: option.splits)

lemma inactive_after_stop: "\<not> is_active (exec (Stop s fp # ts) st) s"
  by (simp add: inactive_exec is_active_deactivate)

subsection \<open>The registry under the primitives\<close>

lemma childScopes_emit [simp]: "childScopes (emit e st) = childScopes st"
  by (simp add: emit_def)
lemma childScopes_upd_scope [simp]: "childScopes (upd_scope s f st) = childScopes st"
  by (simp add: upd_scope_def)
lemma childScopes_deactivate [simp]: "childScopes (deactivate s st) = childScopes st"
  by (simp add: deactivate_def)
lemma childScopes_finish [simp]: "childScopes (finish s fp st) = childScopes st"
  by (simp add: finish_def detach_def Let_def split: option.splits)
lemma childScopes_effectScope [simp]: "childScopes (snd (effectScope amb st)) = childScopes st"
  by (simp add: effectScope_def Let_def split: option.splits)
lemma childScopes_onScopeDispose [simp]: "childScopes (onScopeDispose s h st) = childScopes st"
  by (simp add: onScopeDispose_def)
lemma childScopes_fold_hooks [simp]:
  "childScopes (fold (\<lambda>m. onScopeDispose s (UserHook m)) ms st) = childScopes st"
  by (induction ms arbitrary: st) auto
lemma childScopes_invoke [simp]: "childScopes (invoke h k s st) = childScopes st"
  by (simp add: invoke_def)

lemma get_child_cong: "childScopes st' = childScopes st \<Longrightarrow> get_child st' k = get_child st k"
  by (simp add: get_child_def)

lemma get_child_set_child [simp]:
  "get_child (set_child k s st) k' = (if k' = k then Some s else get_child st k')"
  by (simp add: get_child_def set_child_def update_conv')

lemma get_child_delete_child [simp]:
  "get_child (delete_child k st) k' = (if k' = k then None else get_child st k')"
  by (simp add: get_child_def delete_child_def delete_conv')

lemma has_get_child: "has st k = (get_child st k \<noteq> None)"
  by (simp add: has_def get_child_def)

subsection \<open>The trace under the primitives\<close>

lemma trace_emit [simp]: "trace (emit e st) = trace st @ [e]"
  by (simp add: emit_def)
lemma trace_upd_scope [simp]: "trace (upd_scope s f st) = trace st"
  by (simp add: upd_scope_def)
lemma trace_delete_child [simp]: "trace (delete_child k st) = trace st"
  by (simp add: delete_child_def)
lemma trace_set_child [simp]: "trace (set_child k s st) = trace st"
  by (simp add: set_child_def)
lemma trace_deactivate [simp]: "trace (deactivate s st) = trace st @ [Stopped s]"
  by (simp add: deactivate_def)
lemma trace_finish [simp]: "trace (finish s fp st) = trace st"
  by (simp add: finish_def detach_def Let_def split: option.splits)
lemma trace_effectScope [simp]: "trace (snd (effectScope amb st)) = trace st"
  by (simp add: effectScope_def Let_def split: option.splits)
lemma trace_onScopeDispose [simp]: "trace (onScopeDispose s h st) = trace st"
  by (simp add: onScopeDispose_def)
lemma trace_fold_hooks [simp]:
  "trace (fold (\<lambda>m. onScopeDispose s (UserHook m)) ms st) = trace st"
  by (induction ms arbitrary: st) auto
lemma trace_invoke [simp]: "trace (invoke h k s st) = trace st @ [Invoked k s]"
  by (simp add: invoke_def)

subsection \<open>Liveness under the remaining primitives\<close>

lemma fst_effectScope [simp]: "fst (effectScope amb st) = length (heap st)"
  by (simp add: effectScope_def Let_def)

lemma length_heap_upd_scope [simp]: "length (heap (upd_scope s f st)) = length (heap st)"
  by (simp add: upd_scope_def)

lemma length_heap_effectScope [simp]:
  "length (heap (snd (effectScope amb st))) = Suc (length (heap st))"
  by (simp add: effectScope_def Let_def split: option.splits)

lemma is_active_heap_append:
  "is_active (st\<lparr>heap := heap st @ [sc]\<rparr>) s =
     (if s = length (heap st) then active sc else is_active st s)"
  by (auto simp: is_active_def scope_at_def nth_append)

lemma is_active_effectScope [simp]:
  "is_active (snd (effectScope amb st)) s = (s = length (heap st) \<or> is_active st s)"
  by (simp add: effectScope_def Let_def is_active_heap_append split: option.splits)

lemma is_active_onScopeDispose [simp]: "is_active (onScopeDispose t h st) s = is_active st s"
  by (simp add: onScopeDispose_def)

lemma is_active_fold_hooks [simp]:
  "is_active (fold (\<lambda>m. onScopeDispose t (UserHook m)) ms st) s = is_active st s"
  by (induction ms arbitrary: st) auto

lemma is_active_invoke [simp]: "is_active (invoke h k t st) s = is_active st s"
  by (simp add: invoke_def)


section \<open>Nested stops keep the registry in step with the live scopes\<close>

text \<open>
  A scope is live from its \<open>Created\<close> event to its \<open>Stopped\<close> event. The invariant of
  both versions: a live scope of a key is the scope registered under that key, and is live
  in the store. A pending \<open>Delete k\<close> keeps it only when every live scope of \<open>k\<close> is
  stopped before it runs, which is what \<open>covered\<close> says of a task list.
\<close>

fun covered :: "'k task list \<Rightarrow> 'k \<Rightarrow> sid \<Rightarrow> bool" where
  "covered [] k s = True"
| "covered (Stop t fp # ts) k s = (t = s \<or> covered ts k s)"
| "covered (Delete k' # ts) k s = (k' \<noteq> k \<and> covered ts k s)"
| "covered (Hook t h # ts) k s = covered ts k s"
| "covered (Finish t fp # ts) k s = covered ts k s"

definition reg_inv :: "('k, 'v) runtime \<Rightarrow> bool" where
  "reg_inv st = (\<forall>k s. s \<in> live (trace st) k \<longrightarrow> get_child st k = Some s \<and> is_active st s)"

definition all_covered :: "'k task list \<Rightarrow> ('k, 'v) runtime \<Rightarrow> bool" where
  "all_covered ts st = (\<forall>k s. s \<in> live (trace st) k \<longrightarrow> covered ts k s)"

lemma live_Nil [simp]: "live [] k = {}"
  by (simp add: live_def)

lemma live_snoc [simp]: "live (es @ [e]) k = live_step k e (live es k)"
  by (simp add: live_def)

lemma get_child_emit [simp]: "get_child (emit e st) k = get_child st k"
  by (simp add: get_child_def)
lemma get_child_upd_scope [simp]: "get_child (upd_scope s f st) k = get_child st k"
  by (simp add: get_child_def)
lemma get_child_deactivate [simp]: "get_child (deactivate s st) k = get_child st k"
  by (simp add: get_child_def)
lemma get_child_finish [simp]: "get_child (finish s fp st) k = get_child st k"
  by (simp add: get_child_def)
lemma get_child_effectScope [simp]: "get_child (snd (effectScope amb st)) k = get_child st k"
  by (simp add: get_child_def)
lemma get_child_onScopeDispose [simp]: "get_child (onScopeDispose s h st) k = get_child st k"
  by (simp add: get_child_def)
lemma get_child_invoke [simp]: "get_child (invoke h key s st) k = get_child st k"
  by (simp add: get_child_def)

lemma covered_prepend:
  assumes "\<forall>t \<in> set xs. \<forall>k'. t \<noteq> Delete k'" and "covered ts k s"
  shows "covered (xs @ ts) k s"
  using assms
proof (induction xs)
  case Nil
  then show ?case by simp
next
  case (Cons x xs)
  then show ?case by (cases x) auto
qed

lemma stop_tasks_no_Delete: "\<forall>t \<in> set (stop_tasks s fp sc). \<forall>k'. t \<noteq> Delete k'"
  by (auto simp: stop_tasks_def)

lemma exec_reg_inv:
  "reg_inv st \<Longrightarrow> all_covered ts st \<Longrightarrow> reg_inv (exec ts st)"
proof (induction ts st rule: exec.induct)
  case (1 st)
  then show ?case by simp
next
  case (2 s fromParent ts st)
  show ?case
  proof (cases "is_active st s")
    case True
    have inv': "reg_inv (deactivate s st)"
      using "2.prems"(1) by (auto simp: reg_inv_def is_active_deactivate)
    have cov': "all_covered (stop_tasks s fromParent (heap st ! s) @ ts) (deactivate s st)"
      using "2.prems"(2)
      by (auto simp: all_covered_def intro!: covered_prepend stop_tasks_no_Delete [rule_format])
    from "2.IH"(1) [OF True inv' cov'] True show ?thesis by simp
  next
    case False
    have "all_covered ts st"
      using "2.prems" False by (auto simp: all_covered_def reg_inv_def)
    from "2.IH"(2) [OF False "2.prems"(1) this] False show ?thesis by simp
  qed
next
  case (3 s m ts st)
  have "reg_inv (emit (Fired s m) st)"
    using "3.prems"(1) by (simp add: reg_inv_def)
  moreover have "all_covered ts (emit (Fired s m) st)"
    using "3.prems"(2) by (simp add: all_covered_def)
  ultimately show ?case using "3.IH" by simp
next
  case (4 s k ts st)
  show ?case
  proof (cases "get_child st k")
    case None
    have "all_covered ts st"
      using "4.prems"(2) by (simp add: all_covered_def)
    from "4.IH"(1) [OF None "4.prems"(1) this] None show ?thesis by simp
  next
    case (Some t)
    have "all_covered (Stop t False # Delete k # ts) st"
      using "4.prems" Some by (auto simp: all_covered_def reg_inv_def)
    from "4.IH"(2) [OF Some "4.prems"(1) this] Some show ?thesis by simp
  qed
next
  case (5 k ts st)
  have none: "live (trace st) k = {}"
    using "5.prems"(2) by (auto simp: all_covered_def)
  have "reg_inv (delete_child k st)"
    using "5.prems"(1) none by (auto simp: reg_inv_def)
  moreover have "all_covered ts (delete_child k st)"
    using "5.prems"(2) by (auto simp: all_covered_def)
  ultimately show ?case using "5.IH" by simp
next
  case (6 s fromParent ts st)
  have "reg_inv (finish s fromParent st)"
    using "6.prems"(1) by (simp add: reg_inv_def)
  moreover have "all_covered ts (finish s fromParent st)"
    using "6.prems"(2) by (simp add: all_covered_def)
  ultimately show ?case using "6.IH" by simp
qed


subsection \<open>One added key\<close>

lemma addKey_watch_fst:
  "fst (addKey_watch h amb k st) =
     (if throws (h k (length (heap st))) then Some (HandlerFailure k) else None)"
  by (simp add: addKey_watch_def newScope_run_def Let_def case_prod_beta)

lemma addKey_watch_trace:
  "trace (snd (addKey_watch h amb k st)) =
     trace st @ [Created (length (heap st)) k, Invoked k (length (heap st))]"
  by (simp add: addKey_watch_def newScope_run_def Let_def case_prod_beta)

lemma addKey_watch_get:
  "get_child (snd (addKey_watch h amb k st)) k' =
     (if k' = k then Some (length (heap st)) else get_child st k')"
  by (simp add: addKey_watch_def newScope_run_def Let_def case_prod_beta)

lemma addKey_watch_active:
  "is_active (snd (addKey_watch h amb k st)) s = (s = length (heap st) \<or> is_active st s)"
  by (simp add: addKey_watch_def newScope_run_def Let_def case_prod_beta)

lemma addKey_effect_has: "has st k \<Longrightarrow> addKey_effect h amb k st = (None, st)"
  by (simp add: addKey_effect_def)

lemma addKey_effect_fst:
  "\<not> has st k \<Longrightarrow> fst (addKey_effect h amb k st) =
     (if throws (h k (length (heap st))) then Some (HandlerFailure k) else None)"
  by (simp add: addKey_effect_def Let_def case_prod_beta)

lemma addKey_effect_trace:
  "\<not> has st k \<Longrightarrow> trace (snd (addKey_effect h amb k st)) =
     trace st @ [Created (length (heap st)) k, Invoked k (length (heap st))]"
  by (simp add: addKey_effect_def Let_def case_prod_beta)

lemma addKey_effect_get:
  "\<not> has st k \<Longrightarrow> get_child (snd (addKey_effect h amb k st)) k' =
     (if k' = k then Some (length (heap st)) else get_child st k')"
  by (simp add: addKey_effect_def Let_def case_prod_beta)

lemma addKey_effect_active:
  "\<not> has st k \<Longrightarrow> is_active (snd (addKey_effect h amb k st)) s =
     (s = length (heap st) \<or> is_active st s)"
  by (simp add: addKey_effect_def Let_def case_prod_beta)

subsection \<open>Events of a stop\<close>

lemma exec_trace: "\<exists>es. trace (exec ts st) = trace st @ es \<and> list_all removal es"
proof (induction ts st rule: exec.induct)
  case (1 st)
  show ?case by simp
next
  case (2 s fromParent ts st)
  show ?case
  proof (cases "is_active st s")
    case True
    from "2.IH"(1) [OF True] obtain es where
      "trace (exec (stop_tasks s fromParent (heap st ! s) @ ts) (deactivate s st)) =
         trace (deactivate s st) @ es" "list_all removal es" by blast
    with True have "trace (exec (Stop s fromParent # ts) st) = trace st @ (Stopped s # es)
        \<and> list_all removal (Stopped s # es)" by simp
    then show ?thesis by blast
  next
    case False
    with "2.IH"(2) [OF False] show ?thesis by simp
  qed
next
  case (3 s m ts st)
  from "3.IH" obtain es where
    "trace (exec ts (emit (Fired s m) st)) = trace (emit (Fired s m) st) @ es"
    "list_all removal es" by blast
  then have "trace (exec (Hook s (UserHook m) # ts) st) = trace st @ (Fired s m # es)
      \<and> list_all removal (Fired s m # es)" by simp
  then show ?case by blast
next
  case (4 s k ts st)
  then show ?case by (cases "get_child st k") simp_all
next
  case (5 k ts st)
  then show ?case by simp
next
  case (6 s fromParent ts st)
  then show ?case by simp
qed


subsection \<open>At most one live scope, at every prefix\<close>

definition unique_live :: "'k event list \<Rightarrow> bool" where
  "unique_live p = (\<forall>k s t. s \<in> live p k \<longrightarrow> t \<in> live p k \<longrightarrow> s = t)"

definition pfx_inv :: "'k event list \<Rightarrow> bool" where
  "pfx_inv tr = (\<forall>p. prefix p tr \<longrightarrow> unique_live p)"

lemma finite_live: "finite (live es k)"
proof (induction es rule: rev_induct)
  case Nil
  show ?case by simp
next
  case (snoc e es)
  then show ?case by (cases e) auto
qed

lemma live_removals: "list_all removal es \<Longrightarrow> live (tr @ es) k \<subseteq> live tr k"
proof (induction es rule: rev_induct)
  case Nil
  show ?case by simp
next
  case (snoc e es)
  then have "live (tr @ es) k \<subseteq> live tr k" by simp
  moreover from snoc.prems have "removal e" by simp
  then have "live_step k e (live (tr @ es) k) \<subseteq> live (tr @ es) k" by (cases e) auto
  moreover have "live (tr @ es @ [e]) k = live_step k e (live (tr @ es) k)"
    using live_snoc [of "tr @ es" e k] by simp
  ultimately show ?case by blast
qed

lemma pfx_inv_snoc: "pfx_inv (tr @ [e]) = (pfx_inv tr \<and> unique_live (tr @ [e]))"
  by (auto simp: pfx_inv_def)

lemma unique_live_subset:
  "unique_live tr \<Longrightarrow> (\<And>k. live tr' k \<subseteq> live tr k) \<Longrightarrow> unique_live tr'"
  unfolding unique_live_def by blast

lemma pfx_inv_removals:
  assumes "pfx_inv tr" and "list_all removal es"
  shows "pfx_inv (tr @ es)"
  unfolding pfx_inv_def
proof (intro allI impI)
  fix p
  assume "prefix p (tr @ es)"
  then consider "prefix p tr" | us where "p = tr @ us" "prefix us es"
    by (auto simp: prefix_append)
  then show "unique_live p"
  proof cases
    case 1
    with assms(1) show ?thesis by (simp add: pfx_inv_def)
  next
    case 2
    from \<open>prefix us es\<close> obtain vs where "es = us @ vs" by (auto simp: prefix_def)
    with assms(2) have "list_all removal us" by simp
    then have "\<And>k. live (tr @ us) k \<subseteq> live tr k" by (rule live_removals)
    moreover from assms(1) have "unique_live tr" by (simp add: pfx_inv_def)
    ultimately show ?thesis using 2 by (auto intro: unique_live_subset)
  qed
qed

definition coherent :: "('k, 'v) runtime \<Rightarrow> bool" where
  "coherent st = (reg_inv st \<and> pfx_inv (trace st))"

lemma reg_inv_unique: "reg_inv st \<Longrightarrow> unique_live (trace st)"
  unfolding reg_inv_def unique_live_def by (metis option.inject)

lemma exec_coherent:
  assumes "coherent st" and "all_covered ts st"
  shows "coherent (exec ts st)"
proof -
  from exec_trace [of ts st] obtain es where
    es: "trace (exec ts st) = trace st @ es" "list_all removal es" by blast
  from assms have "reg_inv (exec ts st)" by (simp add: coherent_def exec_reg_inv)
  moreover from assms(1) es have "pfx_inv (trace (exec ts st))"
    by (simp add: coherent_def pfx_inv_removals)
  ultimately show ?thesis by (simp add: coherent_def)
qed

lemma coherent_added:
  assumes "coherent st" and "get_child st k = None"
    and tr: "trace st' = trace st @ [Created s k, Invoked k s]"
    and get: "\<And>k'. get_child st' k' = (if k' = k then Some s else get_child st k')"
    and act: "\<And>t. is_active st' t = (t = s \<or> is_active st t)"
  shows "coherent st'"
proof -
  from assms(1,2) have none: "live (trace st) k = {}"
    by (auto simp: coherent_def reg_inv_def)
  have l1: "live (trace st @ [Created s k]) k' = (if k' = k then {s} else live (trace st) k')" for k'
    using none by simp
  have l2: "live (trace st') k' = (if k' = k then {s} else live (trace st) k')" for k'
    using l1 [of k'] live_snoc [of "trace st @ [Created s k]" "Invoked k s" k']
    by (simp add: tr)
  have reg: "reg_inv st'"
    using assms(1) by (auto simp: coherent_def reg_inv_def l2 get act split: if_splits)
  have u0: "unique_live (trace st)"
    using assms(1) by (simp add: coherent_def reg_inv_unique)
  have u1: "unique_live (trace st @ [Created s k])"
    using u0 unfolding unique_live_def by (auto simp only: l1 split: if_splits)
  have u2: "unique_live (trace st')"
    using reg by (rule reg_inv_unique)
  have "pfx_inv (trace st @ [Created s k])"
    using assms(1) u1 by (simp add: coherent_def pfx_inv_snoc)
  then have "pfx_inv ((trace st @ [Created s k]) @ [Invoked k s])"
    using u2 tr by (simp only: pfx_inv_snoc) simp
  then have "pfx_inv (trace st')" by (simp add: tr)
  with reg show ?thesis by (simp add: coherent_def)
qed


subsection \<open>The steps of both versions keep the state coherent\<close>

lemma all_covered_single [simp]: "all_covered [Stop s fp] st"
  by (simp add: all_covered_def)

lemma stopScope_coherent: "coherent st \<Longrightarrow> coherent (stopScope s st)"
  by (simp add: stopScope_def exec_coherent del: exec.simps)

lemma removeKey_effect_exec:
  "removeKey_effect k st =
     (case get_child st k of None \<Rightarrow> st | Some s \<Rightarrow> exec [Stop s False, Delete k] st)"
  using exec_append [of "[Stop s False]" "[Delete k]" st for s]
  by (simp add: removeKey_effect_def stopScope_def split: option.splits)

lemma removeKey_effect_coherent:
  assumes "coherent st"
  shows "coherent (removeKey_effect k st)"
proof (cases "get_child st k")
  case None
  with assms show ?thesis by (simp add: removeKey_effect_def)
next
  case (Some s)
  have "all_covered [Stop s False, Delete k] st"
    using assms Some by (auto simp: all_covered_def coherent_def reg_inv_def)
  with assms Some show ?thesis
    by (simp add: removeKey_effect_exec exec_coherent del: exec.simps)
qed

lemma fold_removeKey_coherent: "coherent st \<Longrightarrow> coherent (fold removeKey_effect ks st)"
  by (induction ks arbitrary: st) (simp_all add: removeKey_effect_coherent)

lemma addKey_effect_coherent:
  assumes "coherent st"
  shows "coherent (snd (addKey_effect h amb k st))"
proof (cases "has st k")
  case True
  with assms show ?thesis by (simp add: addKey_effect_has)
next
  case False
  then have "get_child st k = None" by (simp add: has_get_child)
  with assms show ?thesis
    by (rule coherent_added)
      (simp_all add: addKey_effect_trace addKey_effect_get addKey_effect_active False)
qed

lemma addKey_watch_coherent:
  assumes "coherent st" and "get_child st k = None"
  shows "coherent (snd (addKey_watch h amb k st))"
  using assms
  by (rule coherent_added)
    (simp_all add: addKey_watch_trace addKey_watch_get addKey_watch_active)

lemma addLoop_watch_coherent:
  assumes "coherent st" and "distinct ks" and "\<forall>k \<in> set ks. get_child st k = None"
  shows "coherent (snd (addLoop_watch h amb ks st))"
  using assms
proof (induction ks arbitrary: st)
  case Nil
  then show ?case by simp
next
  case (Cons k ks)
  obtain e st' where step: "addKey_watch h amb k st = (e, st')"
    by (cases "addKey_watch h amb k st")
  have st': "st' = snd (addKey_watch h amb k st)" by (simp add: step)
  have c: "coherent st'"
    unfolding st' using Cons.prems by (simp add: addKey_watch_coherent)
  have "\<forall>k' \<in> set ks. get_child st' k' = None"
    unfolding st' using Cons.prems by (auto simp: addKey_watch_get)
  with Cons.IH [OF c] Cons.prems(2) have "coherent (snd (addLoop_watch h amb ks st'))" by simp
  with c step show ?case by (cases e) simp_all
qed

lemma pass_watch_coherent:
  assumes "coherent st" and "distinct inputKeys"
  shows "coherent (snd (pass_watch h amb inputKeys st))"
  unfolding pass_watch_def Let_def
  using assms by (intro addLoop_watch_coherent) (auto simp: has_get_child)

lemma pass_effect_coherent:
  assumes "coherent st"
  shows "coherent (snd (pass_effect h amb st))"
  unfolding pass_effect_def Let_def
  by (rule addLoop_effect_preserves)
    (simp_all add: assms fold_removeKey_coherent addKey_effect_coherent)

lemma coherent_cong:
  "trace st' = trace st \<Longrightarrow> childScopes st' = childScopes st
   \<Longrightarrow> (\<And>s. is_active st' s = is_active st s) \<Longrightarrow> coherent st \<Longrightarrow> coherent st'"
  by (simp add: coherent_def reg_inv_def get_child_def)

lemma is_active_dispose_effect [simp]: "is_active (dispose_effect c st) s = is_active st s"
  by (cases "s = c") (simp_all add: dispose_effect_def is_active_def scope_at_def upd_scope_def)

lemma dispose_effect_coherent: "coherent st \<Longrightarrow> coherent (dispose_effect c st)"
proof (erule coherent_cong [rotated 3])
  show "trace (dispose_effect c st) = trace st" by (simp add: dispose_effect_def)
  show "childScopes (dispose_effect c st) = childScopes st" by (simp add: dispose_effect_def)
  show "is_active (dispose_effect c st) s = is_active st s" for s by simp
qed

lemma dispose_watch_coherent: "coherent st \<Longrightarrow> coherent (dispose_watch p st)"
  by (simp add: dispose_watch_def stopScope_coherent)


subsection \<open>Runs\<close>

lemma coherent_start: "trace st = [] \<Longrightarrow> coherent st"
  by (simp add: coherent_def reg_inv_def pfx_inv_def unique_live_def)

lemma trace_entry [simp]: "trace (snd (entry inScope obj)) = []"
  by (simp add: entry_def runtime0_def case_prod_beta)

lemma input_entry [simp]: "input (snd (entry inScope obj)) = obj"
  by (simp add: entry_def runtime0_def case_prod_beta)

lemma observe_watch_coherent:
  "coherent st \<Longrightarrow> distinct (Object_keys (input st)) \<Longrightarrow> coherent (snd (observe_watch h amb st))"
  by (simp add: observe_watch_def pass_watch_coherent)

lemma observe_effect_coherent: "coherent st \<Longrightarrow> coherent (snd (observe_effect h amb st))"
  by (simp add: observe_effect_def pass_effect_coherent)

lemma useScopePerKey_watch_coherent:
  assumes "trace st = []" and "distinct (Object_keys (input st))"
  shows "coherent (snd (snd (useScopePerKey_watch h amb st)))"
proof -
  have "coherent ((upd_scope (fst (effectScope amb (st\<lparr>childScopes := []\<rparr>)))
      (\<lambda>sc. sc\<lparr>watcher := True\<rparr>) (snd (effectScope amb (st\<lparr>childScopes := []\<rparr>))))\<lparr>watching := True\<rparr>)"
    by (rule coherent_start) (simp add: assms)
  then show ?thesis
    using assms(2)
    by (simp add: useScopePerKey_watch_def Let_def case_prod_beta observe_watch_coherent)
qed

lemma useScopePerKey_effect_coherent:
  assumes "trace st = []"
  shows "coherent (snd (snd (useScopePerKey_effect h amb st)))"
proof -
  define cs where "cs = (case amb of Some c \<Rightarrow> (c, st) | None \<Rightarrow> effectScope None st)"
  define st2 where "st2 = (snd cs)\<lparr>childScopes := []\<rparr>"
  define st3 where
    "st3 = (upd_scope (fst cs) (\<lambda>sc. sc\<lparr>watcher := True\<rparr>) st2)\<lparr>watching := True\<rparr>"
  have "trace st2 = []"
    using assms by (simp add: st2_def cs_def split: option.splits)
  then have "coherent st2" and "coherent st3"
    by (simp_all add: coherent_start st3_def)
  then have "coherent (snd (observe_effect h (Some (fst cs)) st3))" and "coherent st2"
    by (simp_all add: observe_effect_coherent)
  then show ?thesis
    by (simp add: useScopePerKey_effect_def Let_def case_prod_beta
        cs_def [symmetric] st2_def [symmetric] st3_def [symmetric])
qed

lemma fold_step_watch_coherent:
  "coherent st \<Longrightarrow> list_all well_formed acts
   \<Longrightarrow> coherent (fold (step_watch h p) acts st)"
proof (induction acts arbitrary: st)
  case Nil
  then show ?case by simp
next
  case (Cons a acts)
  have "coherent (step_watch h p a st)"
  proof (cases a)
    case (Change obj amb)
    have "coherent (st\<lparr>input := obj\<rparr>)"
      using Cons.prems(1) by (rule coherent_cong [rotated 3]) (simp_all add: is_active_def scope_at_def)
    with Cons.prems(2) Change show ?thesis
      by (simp add: well_formed_def observe_watch_coherent)
  next
    case Dispose
    with Cons.prems(1) show ?thesis by (simp add: dispose_watch_coherent)
  next
    case (StopScope s)
    with Cons.prems(1) show ?thesis by (simp add: stopScope_coherent)
  qed
  with Cons.IH Cons.prems(2) show ?case by simp
qed

lemma fold_step_effect_coherent:
  "coherent st \<Longrightarrow> coherent (fold (step_effect h c) acts st)"
proof (induction acts arbitrary: st)
  case Nil
  then show ?case by simp
next
  case (Cons a acts)
  have "coherent (step_effect h c a st)"
  proof (cases a)
    case (Change obj amb)
    have "coherent (st\<lparr>input := obj\<rparr>)"
      using Cons.prems(1) by (rule coherent_cong [rotated 3]) (simp_all add: is_active_def scope_at_def)
    with Change show ?thesis
      by (simp add: observe_effect_coherent)
  next
    case Dispose
    with Cons.prems(1) show ?thesis
      by (simp add: call_returned_effect_def dispose_effect_coherent split: option.splits)
  next
    case (StopScope s)
    with Cons.prems(1) show ?thesis by (simp add: stopScope_coherent)
  qed
  with Cons.IH show ?case by simp
qed

lemma run_watch_coherent:
  assumes "distinct (Object_keys obj)" and "list_all well_formed acts"
  shows "coherent (run_watch h inScope obj acts)"
  using assms
  by (simp add: run_watch_def case_prod_beta fold_step_watch_coherent
      useScopePerKey_watch_coherent)

lemma run_effect_coherent: "coherent (run_effect h inScope obj acts)"
  by (simp add: run_effect_def case_prod_beta fold_step_effect_coherent
      useScopePerKey_effect_coherent)


subsection \<open>Order of events within a pass\<close>

lemma fold_removeKey_trace:
  "\<exists>r. trace (fold removeKey_effect ks st) = trace st @ r \<and> list_all removal r"
proof (induction ks arbitrary: st)
  case Nil
  show ?case by simp
next
  case (Cons k ks)
  have "\<exists>r. trace (removeKey_effect k st) = trace st @ r \<and> list_all removal r"
    using exec_trace [of "[Stop s False]" st for s]
    by (cases "get_child st k") (simp_all add: removeKey_effect_def stopScope_def del: exec.simps)
  then obtain r1 where r1: "trace (removeKey_effect k st) = trace st @ r1" "list_all removal r1"
    by blast
  from Cons.IH [of "removeKey_effect k st"] obtain r2 where
    r2: "trace (fold removeKey_effect ks (removeKey_effect k st)) = trace (removeKey_effect k st) @ r2"
      "list_all removal r2" by blast
  from r1 r2 have "trace (fold removeKey_effect (k # ks) st) = trace st @ (r1 @ r2)
      \<and> list_all removal (r1 @ r2)" by simp
  then show ?case by blast
qed

lemma addLoop_effect_trace:
  "\<exists>a. trace (snd (addLoop_effect h amb ks st)) = trace st @ a \<and> list_all addition a"
proof (rule addLoop_effect_preserves)
  show "\<exists>a. trace st = trace st @ a \<and> list_all addition a" by simp
next
  fix k and st' :: "('a, 'b) runtime"
  assume "\<exists>a. trace st' = trace st @ a \<and> list_all addition a"
  then obtain a where a: "trace st' = trace st @ a" "list_all addition a" by blast
  show "\<exists>a. trace (snd (addKey_effect h amb k st')) = trace st @ a \<and> list_all addition a"
  proof (cases "has st' k")
    case True
    with a show ?thesis by (simp add: addKey_effect_has)
  next
    case False
    with a have "trace (snd (addKey_effect h amb k st')) =
        trace st @ (a @ [Created (length (heap st')) k, Invoked k (length (heap st'))])
      \<and> list_all addition (a @ [Created (length (heap st')) k, Invoked k (length (heap st'))])"
      by (simp add: addKey_effect_trace)
    then show ?thesis by blast
  qed
qed

lemma addLoop_watch_trace:
  "\<exists>a. trace (snd (addLoop_watch h amb ks st)) = trace st @ a \<and> list_all addition a"
proof (rule addLoop_watch_preserves)
  show "\<exists>a. trace st = trace st @ a \<and> list_all addition a" by simp
next
  fix k and st' :: "('a, 'b) runtime"
  assume "\<exists>a. trace st' = trace st @ a \<and> list_all addition a"
  then obtain a where a: "trace st' = trace st @ a" "list_all addition a" by blast
  then have "trace (snd (addKey_watch h amb k st')) =
        trace st @ (a @ [Created (length (heap st')) k, Invoked k (length (heap st'))])
      \<and> list_all addition (a @ [Created (length (heap st')) k, Invoked k (length (heap st'))])"
    by (simp add: addKey_watch_trace)
  then show "\<exists>a. trace (snd (addKey_watch h amb k st')) = trace st @ a \<and> list_all addition a"
    by blast
qed

lemma pass_effect_order:
  "\<exists>r a. trace (snd (pass_effect h amb st)) = trace st @ r @ a
     \<and> list_all removal r \<and> list_all addition a"
proof -
  define ks where "ks = filter (\<lambda>key. key \<notin> set (Object_keys (input st))) (keys_of st)"
  define st1 where "st1 = fold removeKey_effect ks st"
  from fold_removeKey_trace [of ks st] obtain r where
    r: "trace st1 = trace st @ r" "list_all removal r" by (auto simp: st1_def)
  from addLoop_effect_trace [of h amb _ st1] r show ?thesis
    by (simp add: pass_effect_def Let_def ks_def [symmetric] st1_def [symmetric]) blast
qed

lemma pass_watch_order:
  "\<exists>a. trace (snd (pass_watch h amb inputKeys st)) = trace st @ a \<and> list_all addition a"
  by (simp add: pass_watch_def addLoop_watch_trace)

section \<open>What a new scope holds\<close>

lemma cleanups_of_emit [simp]: "cleanups_of (emit e st) s = cleanups_of st s"
  by (simp add: cleanups_of_def scope_at_def)
lemma cleanups_of_set_child [simp]: "cleanups_of (set_child k t st) s = cleanups_of st s"
  by (simp add: cleanups_of_def scope_at_def)

lemma cleanups_of_upd_scope:
  "cleanups_of (upd_scope t f st) s =
     (if s = t \<and> t < length (heap st) then cleanups (f (heap st ! t)) else cleanups_of st s)"
  by (cases "s = t") (simp_all add: cleanups_of_def scope_at_def upd_scope_def)


lemma length_heap_onScopeDispose [simp]: "length (heap (onScopeDispose t h st)) = length (heap st)"
  by (simp add: onScopeDispose_def)

lemma length_heap_fold_hooks [simp]:
  "length (heap (fold (\<lambda>m. onScopeDispose t (UserHook m)) ms st)) = length (heap st)"
  by (induction ms arbitrary: st) auto


lemma length_heap_emit [simp]: "length (heap (emit e st)) = length (heap st)"
  by simp
lemma length_heap_set_child [simp]: "length (heap (set_child k s st)) = length (heap st)"
  by simp


lemma length_heap_invoke [simp]: "length (heap (invoke h k t st)) = length (heap st)"
  by (simp add: invoke_def)

lemma cleanups_of_effectScope_new [simp]:
  "cleanups_of (snd (effectScope amb st)) (length (heap st)) = []"
  by (simp add: effectScope_def Let_def cleanups_of_upd_scope split: option.splits)
    (simp add: cleanups_of_def scope_at_def)



lemma scopes_of_emit [simp]: "scopes_of (emit e st) s = scopes_of st s"
  by (simp add: scopes_of_def scope_at_def)
lemma scopes_of_set_child [simp]: "scopes_of (set_child k t st) s = scopes_of st s"
  by (simp add: scopes_of_def scope_at_def)

lemma scopes_of_upd_scope:
  "scopes_of (upd_scope t f st) s =
     (if s = t \<and> t < length (heap st) then scopes (f (heap st ! t)) else scopes_of st s)"
  by (cases "s = t") (simp_all add: scopes_of_def scope_at_def upd_scope_def)

lemma scopes_of_onScopeDispose [simp]: "scopes_of (onScopeDispose t h st) s = scopes_of st s"
  by (simp add: onScopeDispose_def scopes_of_upd_scope) (simp add: scopes_of_def scope_at_def)

lemma scopes_of_fold_hooks [simp]:
  "scopes_of (fold (\<lambda>m. onScopeDispose t (UserHook m)) ms st) s = scopes_of st s"
  by (induction ms arbitrary: st) auto

lemma scopes_of_invoke [simp]: "scopes_of (invoke h k t st) s = scopes_of st s"
  by (simp add: invoke_def)





lemma is_active_fold_fired [simp]:
  "is_active (fold (\<lambda>m. emit (Fired s m)) ms st) t = is_active st t"
  by (induction ms arbitrary: st) simp_all

lemma get_child_fold_fired [simp]:
  "get_child (fold (\<lambda>m. emit (Fired s m)) ms st) k = get_child st k"
  by (induction ms arbitrary: st) simp_all


section \<open>A handler that throws\<close>

lemma new_events_append: "trace st' = trace st @ es \<Longrightarrow> new_events st st' = es"
  by (simp add: new_events_def)

lemma addLoop_watch_failure:
  "\<exists>es. trace (snd (addLoop_watch h amb ks st)) = trace st @ es
     \<and> (\<forall>k s. Invoked k s \<in> set es \<longrightarrow> k \<in> set ks)
     \<and> (\<forall>k s. Invoked k s \<in> set es \<longrightarrow> throws (h k s) \<longrightarrow>
           fst (addLoop_watch h amb ks st) = Some (HandlerFailure k)
           \<and> get_child (snd (addLoop_watch h amb ks st)) k = Some s
           \<and> is_active (snd (addLoop_watch h amb ks st)) s
           \<and> last es = Invoked k s)"
proof (induction ks arbitrary: st)
  case Nil
  show ?case by simp
next
  case (Cons k ks)
  define s1 where "s1 = length (heap st)"
  define st1 where "st1 = snd (addKey_watch h amb k st)"
  have tr1: "trace st1 = trace st @ [Created s1 k, Invoked k s1]"
    by (simp add: st1_def s1_def addKey_watch_trace)
  show ?case
  proof (cases "throws (h k s1)")
    case True
    then have res: "addLoop_watch h amb (k # ks) st = (Some (HandlerFailure k), st1)"
      using addKey_watch_fst [of h amb k st]
      by (cases "addKey_watch h amb k st") (simp add: st1_def s1_def)
    have "get_child st1 k = Some s1" "is_active st1 s1"
      by (simp_all add: st1_def s1_def addKey_watch_get addKey_watch_active)
    with tr1 res show ?thesis
      by (intro exI [of _ "[Created s1 k, Invoked k s1]"]) (simp del: addLoop_watch.simps)
  next
    case False
    then have res: "addLoop_watch h amb (k # ks) st = addLoop_watch h amb ks st1"
      using addKey_watch_fst [of h amb k st]
      by (cases "addKey_watch h amb k st") (simp add: st1_def s1_def)
    from Cons.IH [of st1] obtain es where
      es: "trace (snd (addLoop_watch h amb ks st1)) = trace st1 @ es"
        "\<forall>k s. Invoked k s \<in> set es \<longrightarrow> k \<in> set ks"
        "\<forall>k s. Invoked k s \<in> set es \<longrightarrow> throws (h k s) \<longrightarrow>
           fst (addLoop_watch h amb ks st1) = Some (HandlerFailure k)
           \<and> get_child (snd (addLoop_watch h amb ks st1)) k = Some s
           \<and> is_active (snd (addLoop_watch h amb ks st1)) s
           \<and> last es = Invoked k s"
      by blast
    show ?thesis
    proof (intro exI [of _ "[Created s1 k, Invoked k s1] @ es"] conjI allI impI)
      show "trace (snd (addLoop_watch h amb (k # ks) st)) =
          trace st @ [Created s1 k, Invoked k s1] @ es"
        by (simp add: res es(1) tr1 del: addLoop_watch.simps)
    next
      fix k' s'
      assume "Invoked k' s' \<in> set ([Created s1 k, Invoked k s1] @ es)"
      with es(2) show "k' \<in> set (k # ks)" by auto
    next
      fix k' s'
      assume mem: "Invoked k' s' \<in> set ([Created s1 k, Invoked k s1] @ es)"
        and thr: "throws (h k' s')"
      with False have in_es: "Invoked k' s' \<in> set es" by auto
      then have "es \<noteq> []" by auto
      then have l: "last ([Created s1 k, Invoked k s1] @ es) = last es" by simp
      from es(3) in_es thr have F:
        "fst (addLoop_watch h amb ks st1) = Some (HandlerFailure k')"
        "get_child (snd (addLoop_watch h amb ks st1)) k' = Some s'"
        "is_active (snd (addLoop_watch h amb ks st1)) s'"
        "last es = Invoked k' s'"
        by blast+
      from F show "fst (addLoop_watch h amb (k # ks) st) = Some (HandlerFailure k')"
        and "get_child (snd (addLoop_watch h amb (k # ks) st)) k' = Some s'"
        and "is_active (snd (addLoop_watch h amb (k # ks) st)) s'"
        and "last ([Created s1 k, Invoked k s1] @ es) = Invoked k' s'"
        unfolding res l by blast+
    qed
  qed
qed

lemma addLoop_effect_failure:
  "\<exists>es. trace (snd (addLoop_effect h amb ks st)) = trace st @ es
     \<and> (\<forall>k s. Invoked k s \<in> set es \<longrightarrow> k \<in> set ks)
     \<and> (\<forall>k s. Invoked k s \<in> set es \<longrightarrow> throws (h k s) \<longrightarrow>
           fst (addLoop_effect h amb ks st) = Some (HandlerFailure k)
           \<and> get_child (snd (addLoop_effect h amb ks st)) k = Some s
           \<and> is_active (snd (addLoop_effect h amb ks st)) s
           \<and> last es = Invoked k s)"
proof (induction ks arbitrary: st)
  case Nil
  show ?case by simp
next
  case (Cons k ks)
  define s1 where "s1 = length (heap st)"
  define st1 where "st1 = snd (addKey_effect h amb k st)"
  show ?case
  proof (cases "has st k")
    case True
    then have "addLoop_effect h amb (k # ks) st = addLoop_effect h amb ks st"
      by (simp add: addKey_effect_has)
    with Cons.IH [of st] show ?thesis
      by (simp del: addLoop_effect.simps) blast
  next
    case absent: False
  have tr1: "trace st1 = trace st @ [Created s1 k, Invoked k s1]"
    by (simp add: st1_def s1_def addKey_effect_trace absent)
  show ?thesis
  proof (cases "throws (h k s1)")
    case True
    then have res: "addLoop_effect h amb (k # ks) st = (Some (HandlerFailure k), st1)"
      using addKey_effect_fst [OF absent, of h amb]
      by (cases "addKey_effect h amb k st") (simp add: st1_def s1_def)
    have "get_child st1 k = Some s1" "is_active st1 s1"
      by (simp_all add: st1_def s1_def addKey_effect_get addKey_effect_active absent)
    with tr1 res show ?thesis
      by (intro exI [of _ "[Created s1 k, Invoked k s1]"]) (simp del: addLoop_effect.simps)
  next
    case False
    then have res: "addLoop_effect h amb (k # ks) st = addLoop_effect h amb ks st1"
      using addKey_effect_fst [OF absent, of h amb]
      by (cases "addKey_effect h amb k st") (simp add: st1_def s1_def)
    from Cons.IH [of st1] obtain es where
      es: "trace (snd (addLoop_effect h amb ks st1)) = trace st1 @ es"
        "\<forall>k s. Invoked k s \<in> set es \<longrightarrow> k \<in> set ks"
        "\<forall>k s. Invoked k s \<in> set es \<longrightarrow> throws (h k s) \<longrightarrow>
           fst (addLoop_effect h amb ks st1) = Some (HandlerFailure k)
           \<and> get_child (snd (addLoop_effect h amb ks st1)) k = Some s
           \<and> is_active (snd (addLoop_effect h amb ks st1)) s
           \<and> last es = Invoked k s"
      by blast
    show ?thesis
    proof (intro exI [of _ "[Created s1 k, Invoked k s1] @ es"] conjI allI impI)
      show "trace (snd (addLoop_effect h amb (k # ks) st)) =
          trace st @ [Created s1 k, Invoked k s1] @ es"
        by (simp add: res es(1) tr1 del: addLoop_effect.simps)
    next
      fix k' s'
      assume "Invoked k' s' \<in> set ([Created s1 k, Invoked k s1] @ es)"
      with es(2) show "k' \<in> set (k # ks)" by auto
    next
      fix k' s'
      assume mem: "Invoked k' s' \<in> set ([Created s1 k, Invoked k s1] @ es)"
        and thr: "throws (h k' s')"
      with False have in_es: "Invoked k' s' \<in> set es" by auto
      then have "es \<noteq> []" by auto
      then have l: "last ([Created s1 k, Invoked k s1] @ es) = last es" by simp
      from es(3) in_es thr have F:
        "fst (addLoop_effect h amb ks st1) = Some (HandlerFailure k')"
        "get_child (snd (addLoop_effect h amb ks st1)) k' = Some s'"
        "is_active (snd (addLoop_effect h amb ks st1)) s'"
        "last es = Invoked k' s'"
        by blast+
      from F show "fst (addLoop_effect h amb (k # ks) st) = Some (HandlerFailure k')"
        and "get_child (snd (addLoop_effect h amb (k # ks) st)) k' = Some s'"
        and "is_active (snd (addLoop_effect h amb (k # ks) st)) s'"
        and "last ([Created s1 k, Invoked k s1] @ es) = Invoked k' s'"
        unfolding res l by blast+
    qed
  qed
  qed
qed


lemma pass_watch_failure:
  assumes "Invoked key s \<in> set (new_events st (snd (pass_watch h amb inputKeys st)))"
    and "throws (h key s)"
  shows "fst (pass_watch h amb inputKeys st) = Some (HandlerFailure key)
       \<and> get_child (snd (pass_watch h amb inputKeys st)) key = Some s
       \<and> is_active (snd (pass_watch h amb inputKeys st)) s
       \<and> last (trace (snd (pass_watch h amb inputKeys st))) = Invoked key s"
proof -
  define ks where "ks = filter (\<lambda>key. \<not> has st key) inputKeys"
  have p: "pass_watch h amb inputKeys st = addLoop_watch h amb ks st"
    by (simp add: pass_watch_def ks_def)
  from addLoop_watch_failure [of h amb ks st] obtain es where
    es: "trace (snd (addLoop_watch h amb ks st)) = trace st @ es"
      "\<forall>k s. Invoked k s \<in> set es \<longrightarrow> throws (h k s) \<longrightarrow>
           fst (addLoop_watch h amb ks st) = Some (HandlerFailure k)
           \<and> get_child (snd (addLoop_watch h amb ks st)) k = Some s
           \<and> is_active (snd (addLoop_watch h amb ks st)) s
           \<and> last es = Invoked k s"
    by blast
  from assms(1) have mem: "Invoked key s \<in> set es"
    by (simp add: p new_events_append [OF es(1)])
  then have "es \<noteq> []" by auto
  then have "last (trace st @ es) = last es" by simp
  with es mem assms(2) show ?thesis unfolding p by metis
qed

lemma pass_watch_invokes:
  assumes "Invoked key s \<in> set (new_events st (snd (pass_watch h amb inputKeys st)))"
  shows "\<not> has st key"
proof -
  define ks where "ks = filter (\<lambda>key. \<not> has st key) inputKeys"
  have p: "pass_watch h amb inputKeys st = addLoop_watch h amb ks st"
    by (simp add: pass_watch_def ks_def)
  from addLoop_watch_failure [of h amb ks st] obtain es where
    es: "trace (snd (addLoop_watch h amb ks st)) = trace st @ es"
      "\<forall>k s. Invoked k s \<in> set es \<longrightarrow> k \<in> set ks"
    by blast
  from assms have "Invoked key s \<in> set es"
    by (simp add: p new_events_append [OF es(1)])
  with es(2) have "key \<in> set ks" by blast
  then show ?thesis by (simp add: ks_def)
qed

lemma pass_effect_split:
  "\<exists>r es. trace (snd (pass_effect h amb st)) = trace st @ r @ es \<and> list_all removal r
     \<and> (\<forall>k s. Invoked k s \<in> set es \<longrightarrow> \<not> has st k)
     \<and> (\<forall>k s. Invoked k s \<in> set es \<longrightarrow> throws (h k s) \<longrightarrow>
           fst (pass_effect h amb st) = Some (HandlerFailure k)
           \<and> get_child (snd (pass_effect h amb st)) k = Some s
           \<and> is_active (snd (pass_effect h amb st)) s
           \<and> last es = Invoked k s)"
proof -
  define ka where "ka = filter (\<lambda>key. key \<notin> set (keys_of st)) (Object_keys (input st))"
  define kr where "kr = filter (\<lambda>key. key \<notin> set (Object_keys (input st))) (keys_of st)"
  define st1 where "st1 = fold removeKey_effect kr st"
  have p: "pass_effect h amb st = addLoop_effect h amb ka st1"
    by (simp add: pass_effect_def Let_def ka_def kr_def st1_def)
  from fold_removeKey_trace [of kr st] obtain r where
    r: "trace st1 = trace st @ r" "list_all removal r" by (auto simp: st1_def)
  from addLoop_effect_failure [of h amb ka st1] obtain es where
    es: "trace (snd (addLoop_effect h amb ka st1)) = trace st1 @ es"
      "\<forall>k s. Invoked k s \<in> set es \<longrightarrow> k \<in> set ka"
      "\<forall>k s. Invoked k s \<in> set es \<longrightarrow> throws (h k s) \<longrightarrow>
           fst (addLoop_effect h amb ka st1) = Some (HandlerFailure k)
           \<and> get_child (snd (addLoop_effect h amb ka st1)) k = Some s
           \<and> is_active (snd (addLoop_effect h amb ka st1)) s
           \<and> last es = Invoked k s"
    by blast
  have "trace (snd (pass_effect h amb st)) = trace st @ r @ es"
    by (simp add: p es(1) r(1))
  moreover have "\<forall>k s. Invoked k s \<in> set es \<longrightarrow> \<not> has st k"
    using es(2) by (auto simp: ka_def has_keys_of)
  ultimately show ?thesis using r(2) es(3) unfolding p by blast
qed

lemma Invoked_not_removal: "list_all removal r \<Longrightarrow> Invoked k s \<notin> set r"
  by (auto simp: list_all_iff)

lemma pass_effect_failure:
  assumes "Invoked key s \<in> set (new_events st (snd (pass_effect h amb st)))"
    and "throws (h key s)"
  shows "fst (pass_effect h amb st) = Some (HandlerFailure key)
       \<and> get_child (snd (pass_effect h amb st)) key = Some s
       \<and> is_active (snd (pass_effect h amb st)) s
       \<and> last (trace (snd (pass_effect h amb st))) = Invoked key s"
proof -
  from pass_effect_split [of h amb st] obtain r es where
    tr: "trace (snd (pass_effect h amb st)) = trace st @ r @ es" and r: "list_all removal r"
    and es: "\<forall>k s. Invoked k s \<in> set es \<longrightarrow> throws (h k s) \<longrightarrow>
           fst (pass_effect h amb st) = Some (HandlerFailure k)
           \<and> get_child (snd (pass_effect h amb st)) k = Some s
           \<and> is_active (snd (pass_effect h amb st)) s
           \<and> last es = Invoked k s"
    by blast
  from assms(1) have "Invoked key s \<in> set (r @ es)"
    by (simp add: new_events_append [OF tr])
  with Invoked_not_removal [OF r] have mem: "Invoked key s \<in> set es" by auto
  then have "es \<noteq> []" by auto
  then have "last (trace st @ r @ es) = last es" by simp
  with es mem assms(2) tr show ?thesis by metis
qed

lemma pass_effect_invokes:
  assumes "Invoked key s \<in> set (new_events st (snd (pass_effect h amb st)))"
  shows "\<not> has st key"
proof -
  from pass_effect_split [of h amb st] obtain r es where
    tr: "trace (snd (pass_effect h amb st)) = trace st @ r @ es" and r: "list_all removal r"
    and es: "\<forall>k s. Invoked k s \<in> set es \<longrightarrow> \<not> has st k"
    by blast
  from assms have "Invoked key s \<in> set (r @ es)"
    by (simp add: new_events_append [OF tr])
  with Invoked_not_removal [OF r] have "Invoked key s \<in> set es" by auto
  with es show ?thesis by blast
qed

section \<open>Handlers that leave the ref alone\<close>

text \<open>
  For a handler that never assigns the watched ref, the loop with re-entry is the loop
  without it, and returns as soon as it is given more turns than there are keys.
\<close>

lemma invoke_w_silent:
  "assigns (h key s) = None \<Longrightarrow> invoke_w h key s st = invoke (silent h) key s st"
  by (simp add: invoke_w_def invoke_def silent_def)

lemma throws_silent [simp]: "throws (silent h key s) = throws_w (h key s)"
  by (simp add: silent_def)

lemma addLoop_watch_re_silent:
  assumes "\<And>k s. assigns (h k s) = None"
  shows "length ks < n \<Longrightarrow>
         addLoop_watch_re n h amb ks st = Some (addLoop_watch (silent h) amb ks st)"
proof (induction ks arbitrary: n st)
  case Nil
  then obtain m where "n = Suc m" by (cases n) auto
  then show ?case by simp
next
  case (Cons k ks)
  then obtain m where n: "n = Suc m" and m: "length ks < m" by (cases n) auto
  note IH = Cons.IH [OF m]
  show ?case
    unfolding n
    by (simp add: assms invoke_w_silent addKey_watch_def newScope_run_def Let_def
        case_prod_beta IH)
qed

section \<open>A hook that stops its own scope, inert last\<close>

text \<open>
  In the order of section 6 of the spec, stopping a scope in the state \<open>self_stopping\<close>
  never returns: the scope's callbacks run, the last of them finds the key registered and
  stops the registered scope, which is the same scope and still live, and so on. No number
  of steps suffices.
\<close>

lemma is_active_cancel_effects [simp]: "is_active (cancel_effects t st) s = is_active st s"
  by (simp add: cancel_effects_def is_active_def scope_at_def)
lemma get_child_cancel_effects [simp]: "get_child (cancel_effects t st) k = get_child st k"
  by (simp add: cancel_effects_def get_child_def)
lemma cleanups_of_cancel_effects [simp]: "cleanups_of (cancel_effects t st) s = cleanups_of st s"
  by (simp add: cancel_effects_def cleanups_of_def scope_at_def)

lemma self_stopping_emit [simp]: "self_stopping (emit e st) s k ms = self_stopping st s k ms"
  by (simp add: self_stopping_def)

lemma self_stopping_cancel [simp]:
  "self_stopping (cancel_effects t st) s k ms = self_stopping st s k ms"
  by (simp add: self_stopping_def)





section \<open>Stops that leave the registry alone\<close>

text \<open>
  The \<^verbatim>\<open>watchEffect\<close> version registers no hook of its own, so in its runs every disposal
  callback in the store is one of the handler's. Stopping scopes in such a store changes no
  entry of \<^verbatim>\<open>childScopes\<close>.
\<close>

fun is_user :: "'k hook \<Rightarrow> bool" where
  "is_user (UserHook m) = True"
| "is_user (SelfRemove k) = False"

definition plain :: "('k, 'v) runtime \<Rightarrow> bool" where
  "plain st = list_all (\<lambda>sc. list_all is_user (cleanups sc)) (heap st)"

fun simple :: "'k task \<Rightarrow> bool" where
  "simple (Stop s fp) = True"
| "simple (Hook s h) = is_user h"
| "simple (Delete k) = False"
| "simple (Finish s fp) = True"

lemma plain_nth: "plain st \<Longrightarrow> s < length (heap st) \<Longrightarrow> list_all is_user (cleanups (heap st ! s))"
  by (simp add: plain_def list_all_length)

lemma plain_upd_scope:
  assumes "plain st"
    and "\<And>sc. list_all is_user (cleanups sc) \<Longrightarrow> list_all is_user (cleanups (f sc))"
  shows "plain (upd_scope s f st)"
proof (cases "s < length (heap st)")
  case True
  with assms have "list_all is_user (cleanups (f (heap st ! s)))"
    by (simp add: plain_nth)
  with assms(1) show ?thesis
    using set_update_subset_insert [of "heap st" s "f (heap st ! s)"]
    by (auto simp: plain_def upd_scope_def list_all_iff)
next
  case False
  with assms(1) show ?thesis by (simp add: plain_def upd_scope_def list_update_beyond)
qed

lemma plain_heap_cong: "heap st' = heap st \<Longrightarrow> plain st' = plain st"
  by (simp add: plain_def)

lemma plain_emit [simp]: "plain (emit e st) = plain st"
  by (simp add: plain_def)
lemma plain_delete_child [simp]: "plain (delete_child k st) = plain st"
  by (simp add: plain_def)
lemma plain_set_child [simp]: "plain (set_child k s st) = plain st"
  by (simp add: plain_def)

lemma plain_deactivate: "plain st \<Longrightarrow> plain (deactivate s st)"
  unfolding deactivate_def
  by (simp add: plain_heap_cong [of "_\<lparr>watching := _\<rparr>"] plain_upd_scope)

lemma plain_finish: "plain st \<Longrightarrow> plain (finish s fp st)"
  by (simp add: finish_def detach_def Let_def plain_upd_scope split: option.splits)

lemma simple_stop_tasks:
  "list_all is_user (cleanups sc) \<Longrightarrow> list_all simple (stop_tasks s fp sc)"
  by (auto simp: stop_tasks_def list_all_iff)

lemma exec_plain:
  "plain st \<Longrightarrow> list_all simple ts \<Longrightarrow>
   plain (exec ts st) \<and> childScopes (exec ts st) = childScopes st"
proof (induction ts st rule: exec.induct)
  case (1 st)
  then show ?case by simp
next
  case (2 s fromParent ts st)
  show ?case
  proof (cases "is_active st s")
    case True
    then have "s < length (heap st)"
      by (simp add: is_active_def scope_at_def split: if_splits)
    with "2.prems" have "list_all simple (stop_tasks s fromParent (heap st ! s) @ ts)"
      by (simp add: simple_stop_tasks plain_nth)
    with "2.IH"(1) [OF True plain_deactivate [OF "2.prems"(1)]] True show ?thesis by simp
  next
    case False
    with "2.IH"(2) "2.prems" show ?thesis by simp
  qed
next
  case (3 s m ts st)
  then show ?case by simp
next
  case (4 s k ts st)
  then show ?case by simp
next
  case (5 k ts st)
  then show ?case by simp
next
  case (6 s fromParent ts st)
  with plain_finish [of st s fromParent] show ?case by simp
qed


lemma map_fst_delete: "map fst (AList.delete k al) = filter (\<lambda>k'. k' \<noteq> k) (map fst al)"
  by (induction al) auto

lemma keys_of_delete_child [simp]: "keys_of (delete_child k st) = filter (\<lambda>k'. k' \<noteq> k) (keys_of st)"
  by (simp add: keys_of_def delete_child_def map_fst_delete)

lemma childScopes_set_child [simp]:
  "childScopes (set_child k s st) = AList.update k s (childScopes st)"
  by (simp add: set_child_def)

lemma removeKey_effect_plain:
  assumes "plain st"
  shows "plain (removeKey_effect k st)
       \<and> childScopes (removeKey_effect k st) =
           (if has st k then AList.delete k (childScopes st) else childScopes st)"
proof (cases "get_child st k")
  case None
  with assms show ?thesis by (simp add: removeKey_effect_def has_get_child)
next
  case (Some s)
  from exec_plain [OF assms, of "[Stop s False]"]
  have "plain (stopScope s st)" "childScopes (stopScope s st) = childScopes st"
    by (simp_all add: stopScope_def del: exec.simps)
  with Some show ?thesis
    by (simp add: removeKey_effect_def has_get_child delete_child_def plain_def)
qed

lemma delete_absent: "map_of al k = None \<Longrightarrow> AList.delete k al = al"
  by (induction al) (auto simp: AList.delete_eq split: if_splits)

lemma removeKey_effect_keys:
  "plain st \<Longrightarrow> keys_of (removeKey_effect k st) = filter (\<lambda>k'. k' \<noteq> k) (keys_of st)"
  using removeKey_effect_plain [of st k] keys_of_delete_child [of k st]
  by (auto simp: keys_of_def delete_child_def has_def delete_absent)

lemma fold_removeKey_plain:
  "plain st \<Longrightarrow> plain (fold removeKey_effect ks st)
     \<and> set (keys_of (fold removeKey_effect ks st)) = set (keys_of st) - set ks"
proof (induction ks arbitrary: st)
  case Nil
  then show ?case by simp
next
  case (Cons k ks)
  from Cons.prems have "plain (removeKey_effect k st)"
    by (simp add: removeKey_effect_plain)
  from Cons.IH [OF this] Cons.prems show ?case
    by (auto simp: removeKey_effect_keys)
qed

lemma plain_effectScope: "plain st \<Longrightarrow> plain (snd (effectScope amb st))"
proof -
  assume p: "plain st"
  have "plain (st\<lparr>heap := heap st @
      [\<lparr>active = True, watcher = False, cleanups = [], scopes = [], parent = amb\<rparr>]\<rparr>)"
    using p by (simp add: plain_def)
  then show ?thesis
    by (auto simp: effectScope_def Let_def split: option.splits intro!: plain_upd_scope)
qed

lemma plain_fold_hooks:
  "plain st \<Longrightarrow> plain (fold (\<lambda>m. onScopeDispose s (UserHook m)) ms st)"
  by (induction ms arbitrary: st) (simp_all add: onScopeDispose_def plain_upd_scope)

lemma plain_invoke: "plain st \<Longrightarrow> plain (invoke h k s st)"
  by (simp add: invoke_def plain_fold_hooks)

lemma addKey_effect_plain: "plain st \<Longrightarrow> plain (snd (addKey_effect h amb k st))"
  by (simp add: addKey_effect_def Let_def case_prod_beta plain_invoke plain_effectScope)

lemma keys_of_set_child [simp]: "set (keys_of (set_child k s st)) = insert k (set (keys_of st))"
  using dom_update [of k s "childScopes st"]
  by (simp add: keys_of_def set_child_def)

lemma keys_of_cong: "childScopes st' = childScopes st \<Longrightarrow> keys_of st' = keys_of st"
  by (simp add: keys_of_def)

lemma addKey_effect_keys:
  "set (keys_of (snd (addKey_effect h amb k st))) = insert k (set (keys_of st))"
proof (cases "has st k")
  case True
  then show ?thesis by (auto simp: addKey_effect_has has_keys_of)
next
  case False
  have "childScopes (snd (addKey_effect h amb k st)) =
      childScopes (set_child k (length (heap st)) st)"
    using False by (simp add: addKey_effect_def Let_def case_prod_beta)
  then show ?thesis by (simp add: keys_of_cong [OF \<open>childScopes _ = _\<close>])
qed

lemma addKey_effect_keys_mono:
  "set (keys_of st) \<subseteq> set (keys_of (snd (addKey_effect h amb k st)))"
  by (auto simp: addKey_effect_keys)

lemma addLoop_effect_keys:
  "fst (addLoop_effect h amb ks st) = None \<Longrightarrow>
   set (keys_of (snd (addLoop_effect h amb ks st))) = set (keys_of st) \<union> set ks"
proof (induction ks arbitrary: st)
  case Nil
  show ?case by simp
next
  case (Cons k ks)
  obtain e st1 where step: "addKey_effect h amb k st = (e, st1)"
    by (cases "addKey_effect h amb k st")
  with Cons.prems have e: "e = None" by (cases e) simp_all
  from step have k1: "set (keys_of st1) = insert k (set (keys_of st))"
    using addKey_effect_keys [of h amb k st] by simp
  from Cons.prems step e have "fst (addLoop_effect h amb ks st1) = None" by simp
  from Cons.IH [OF this] step e k1 show ?case by simp
qed

lemma pass_effect_covers:
  assumes "plain st" and "fst (pass_effect h amb st) = None"
  shows "set (keys_of (snd (pass_effect h amb st))) = set (Object_keys (input st))"
proof -
  define ka where "ka = filter (\<lambda>key. key \<notin> set (keys_of st)) (Object_keys (input st))"
  define kr where "kr = filter (\<lambda>key. key \<notin> set (Object_keys (input st))) (keys_of st)"
  define st1 where "st1 = fold removeKey_effect kr st"
  have p: "pass_effect h amb st = addLoop_effect h amb ka st1"
    by (simp add: pass_effect_def Let_def ka_def kr_def st1_def)
  from fold_removeKey_plain [OF assms(1), of kr]
  have k1: "set (keys_of st1) = set (keys_of st) - set kr" by (simp add: st1_def)
  from assms(2) have "set (keys_of (snd (addLoop_effect h amb ka st1))) = set (keys_of st1) \<union> set ka"
    unfolding p by (rule addLoop_effect_keys)
  with k1 show ?thesis unfolding p by (auto simp: ka_def kr_def)
qed


lemma length_heap_deactivate [simp]: "length (heap (deactivate s st)) = length (heap st)"
  by (simp add: deactivate_def)

lemma length_heap_finish [simp]: "length (heap (finish s fp st)) = length (heap st)"
  by (simp add: finish_def detach_def Let_def split: option.splits)

lemma length_heap_exec [simp]: "length (heap (exec ts st)) = length (heap st)"
  by (induction ts st rule: exec.induct) (auto split: option.splits)

lemma length_heap_removeKey [simp]: "length (heap (removeKey_effect k st)) = length (heap st)"
  by (simp add: removeKey_effect_def stopScope_def del: exec.simps split: option.splits)

lemma length_heap_fold_removeKey [simp]:
  "length (heap (fold removeKey_effect ks st)) = length (heap st)"
  by (induction ks arbitrary: st) simp_all

lemma removeKey_effect_inert:
  "\<not> is_active st s \<Longrightarrow> \<not> is_active (removeKey_effect k st) s"
  by (simp add: removeKey_effect_def stopScope_def inactive_exec del: exec.simps
      split: option.splits)

lemma fold_removeKey_inert:
  "\<not> is_active st s \<Longrightarrow> \<not> is_active (fold removeKey_effect ks st) s"
  by (induction ks arbitrary: st) (simp_all add: removeKey_effect_inert)

lemma removeKey_effect_stops:
  "get_child st k = Some s \<Longrightarrow> \<not> is_active (removeKey_effect k st) s"
  using inactive_after_stop [of s False "[]" st]
  by (simp add: removeKey_effect_def stopScope_def del: exec.simps)

lemma fold_removeKey_stops:
  "plain st \<Longrightarrow> k \<in> set ks \<Longrightarrow> get_child st k = Some s
   \<Longrightarrow> \<not> is_active (fold removeKey_effect ks st) s"
proof (induction ks arbitrary: st)
  case Nil
  then show ?case by simp
next
  case (Cons k0 ks)
  show ?case
  proof (cases "k0 = k")
    case True
    with Cons.prems(3) have "\<not> is_active (removeKey_effect k0 st) s"
      by (simp add: removeKey_effect_stops)
    then show ?thesis by (simp add: fold_removeKey_inert)
  next
    case False
    with Cons.prems(2) have mem: "k \<in> set ks" by simp
    from removeKey_effect_plain [OF Cons.prems(1), of k0]
    have p: "plain (removeKey_effect k0 st)"
      and c: "childScopes (removeKey_effect k0 st) =
           (if has st k0 then AList.delete k0 (childScopes st) else childScopes st)"
      by simp_all
    from c False Cons.prems(3) have "get_child (removeKey_effect k0 st) k = Some s"
      by (simp add: get_child_def delete_conv')
    from Cons.IH [OF p mem this] show ?thesis by simp
  qed
qed

lemma addKey_effect_inert:
  assumes "s < length (heap st)" and "\<not> is_active st s"
  shows "s < length (heap (snd (addKey_effect h amb k st)))
       \<and> \<not> is_active (snd (addKey_effect h amb k st)) s"
proof (cases "has st k")
  case True
  with assms show ?thesis by (simp add: addKey_effect_has)
next
  case False
  have "length (heap (snd (addKey_effect h amb k st))) = Suc (length (heap st))"
    using False by (simp add: addKey_effect_def Let_def case_prod_beta)
  with assms False show ?thesis by (simp add: addKey_effect_active)
qed

lemma addLoop_effect_inert:
  assumes "s < length (heap st)" and "\<not> is_active st s"
  shows "\<not> is_active (snd (addLoop_effect h amb ks st)) s"
proof -
  have "s < length (heap (snd (addLoop_effect h amb ks st)))
      \<and> \<not> is_active (snd (addLoop_effect h amb ks st)) s"
    by (rule addLoop_effect_preserves) (simp_all add: assms addKey_effect_inert)
  then show ?thesis by simp
qed

lemma pass_effect_stops_removed:
  assumes "plain st" and "get_child st k = Some s" and "k \<notin> set (Object_keys (input st))"
    and "is_active st s"
  shows "\<not> is_active (snd (pass_effect h amb st)) s"
proof -
  define ka where "ka = filter (\<lambda>key. key \<notin> set (keys_of st)) (Object_keys (input st))"
  define kr where "kr = filter (\<lambda>key. key \<notin> set (Object_keys (input st))) (keys_of st)"
  define st1 where "st1 = fold removeKey_effect kr st"
  have p: "pass_effect h amb st = addLoop_effect h amb ka st1"
    by (simp add: pass_effect_def Let_def ka_def kr_def st1_def)
  from assms(2) have "has st k" by (simp add: has_get_child)
  with assms(3) have "k \<in> set kr" by (simp add: kr_def has_keys_of)
  with assms(1,2) have "\<not> is_active st1 s"
    unfolding st1_def by (simp add: fold_removeKey_stops)
  moreover from assms(4) have "s < length (heap st1)"
    by (simp add: st1_def is_active_def scope_at_def split: if_splits)
  ultimately show ?thesis unfolding p by (simp add: addLoop_effect_inert)
qed

lemma pass_effect_plain: "plain st \<Longrightarrow> plain (snd (pass_effect h amb st))"
  unfolding pass_effect_def Let_def
  by (rule addLoop_effect_preserves) (simp_all add: fold_removeKey_plain addKey_effect_plain)

lemma observe_effect_plain: "plain st \<Longrightarrow> plain (snd (observe_effect h amb st))"
  by (simp add: observe_effect_def pass_effect_plain)

lemma plain_input_update [simp]: "plain (st\<lparr>input := obj\<rparr>) = plain st"
  by (simp add: plain_def)

lemma plain_watching_update [simp]: "plain (st\<lparr>watching := b\<rparr>) = plain st"
  by (simp add: plain_def)

lemma plain_childScopes_update [simp]: "plain (st\<lparr>childScopes := cs\<rparr>) = plain st"
  by (simp add: plain_def)

lemma step_effect_plain: "plain st \<Longrightarrow> plain (step_effect h c a st)"
proof (cases a)
  case (Change obj amb)
  assume "plain st"
  with Change show ?thesis by (simp add: observe_effect_plain)
next
  case Dispose
  assume "plain st"
  with Dispose show ?thesis
    by (simp add: call_returned_effect_def dispose_effect_def plain_upd_scope split: option.splits)
next
  case (StopScope s)
  assume "plain st"
  from exec_plain [OF this, of "[Stop s False]"] StopScope show ?thesis
    by (simp add: stopScope_def del: exec.simps)
qed

lemma fold_step_effect_plain: "plain st \<Longrightarrow> plain (fold (step_effect h c) acts st)"
  by (induction acts arbitrary: st) (simp_all add: step_effect_plain)

lemma plain_entry: "plain (snd (entry inScope obj))"
  by (simp add: entry_def runtime0_def case_prod_beta effectScope_def Let_def plain_def)

lemma useScopePerKey_effect_plain:
  assumes "plain st"
  shows "plain (snd (snd (useScopePerKey_effect h amb st)))"
proof -
  define cs where "cs = (case amb of Some c \<Rightarrow> (c, st) | None \<Rightarrow> effectScope None st)"
  define st2 where "st2 = (snd cs)\<lparr>childScopes := []\<rparr>"
  define st3 where
    "st3 = (upd_scope (fst cs) (\<lambda>sc. sc\<lparr>watcher := True\<rparr>) st2)\<lparr>watching := True\<rparr>"
  have "plain (snd cs)"
    using assms plain_effectScope [of st None] by (simp add: cs_def split: option.splits)
  then have "plain st2" and "plain st3"
    by (simp_all add: st2_def st3_def plain_upd_scope)
  then have "plain (snd (observe_effect h (Some (fst cs)) st3))" and "plain st2"
    by (simp_all add: observe_effect_plain)
  then show ?thesis
    by (simp add: useScopePerKey_effect_def Let_def case_prod_beta
        cs_def [symmetric] st2_def [symmetric] st3_def [symmetric])
qed

lemma run_effect_plain: "plain (run_effect h inScope obj acts)"
  by (simp add: run_effect_def case_prod_beta fold_step_effect_plain
      useScopePerKey_effect_plain plain_entry)

section \<open>Keys that disappear\<close>

text \<open>
  C1 (the registry's keys are the object's keys after every pass; a key that disappears has
  its scope disposed and its entry deleted). The version of \<^verbatim>\<open>deep-reactivity.ts\<close> has no
  removal in its callback: started on \<open>{a: 1}\<close> and shown \<open>{b: 2}\<close>, it ends with both
  \<open>a\<close> and \<open>b\<close> registered, the scope of \<open>a\<close> still live, and no disposal hook fired.
  The \<^verbatim>\<open>watchEffect\<close> version, on the same input, stops the scope of \<open>a\<close> and ends with
  \<open>b\<close> alone.
\<close>

theorem watch_keeps_removed_key:
  "keys_of (run_watch marking False [(''a'', 1::nat)] [Change [(''b'', 2)] None]) = [''a'', ''b'']
   \<and> Object_keys (input (run_watch marking False [(''a'', 1::nat)] [Change [(''b'', 2)] None])) = [''b'']
   \<and> get_child (run_watch marking False [(''a'', 1::nat)] [Change [(''b'', 2)] None]) ''a'' = Some 1
   \<and> is_active (run_watch marking False [(''a'', 1::nat)] [Change [(''b'', 2)] None]) 1
   \<and> trace (run_watch marking False [(''a'', 1::nat)] [Change [(''b'', 2)] None]) =
       [Created 1 ''a'', Invoked ''a'' 1, Created 2 ''b'', Invoked ''b'' 2]
   \<and> keys_of (run_effect marking False [(''a'', 1::nat)] [Change [(''b'', 2)] None]) = [''b'']
   \<and> trace (run_effect marking False [(''a'', 1::nat)] [Change [(''b'', 2)] None]) =
       [Created 1 ''a'', Invoked ''a'' 1, Stopped 1, Fired 1 1, Created 2 ''b'', Invoked ''b'' 2]"
  by code_simp

text \<open>
  The \<^verbatim>\<open>watchEffect\<close> version does cover the key set. After any run of that version, a pass
  over any object that ends without an exception leaves the registry with exactly the keys
  of that object, and the scope of every registered key that the object no longer has is
  stopped by the pass.
\<close>

theorem effect_pass_covers:
  assumes "fst (pass_effect h amb ((run_effect h inScope obj acts)\<lparr>input := obj'\<rparr>)) = None"
  shows "set (keys_of (snd (pass_effect h amb ((run_effect h inScope obj acts)\<lparr>input := obj'\<rparr>))))
           = set (Object_keys obj')
       \<and> (\<forall>k s. get_child (run_effect h inScope obj acts) k = Some s
              \<longrightarrow> k \<notin> set (Object_keys obj')
              \<longrightarrow> is_active (run_effect h inScope obj acts) s
              \<longrightarrow> \<not> is_active
                    (snd (pass_effect h amb ((run_effect h inScope obj acts)\<lparr>input := obj'\<rparr>))) s)"
proof -
  define st where "st = (run_effect h inScope obj acts)\<lparr>input := obj'\<rparr>"
  have p: "plain st" by (simp add: st_def run_effect_plain)
  have g: "get_child st k = get_child (run_effect h inScope obj acts) k" for k
    by (simp add: st_def get_child_def)
  have a: "is_active st s = is_active (run_effect h inScope obj acts) s" for s
    by (simp add: st_def is_active_def scope_at_def)
  have i: "input st = obj'" by (simp add: st_def)
  from pass_effect_covers [OF p] assms
  have "set (keys_of (snd (pass_effect h amb st))) = set (Object_keys obj')"
    by (simp add: st_def [symmetric] i)
  moreover have "\<not> is_active (snd (pass_effect h amb st)) s"
    if "get_child st k = Some s" "k \<notin> set (Object_keys obj')" "is_active st s" for k s
    using pass_effect_stops_removed [OF p that(1) _ that(3)] that(2) by (simp add: i)
  ultimately show ?thesis by (simp add: st_def [symmetric] g [symmetric] a [symmetric])
qed

theorem effect_pass_covers_witness:
  "fst (pass_effect marking None
         ((run_effect marking False [(''a'', 1::nat)] [])\<lparr>input := [(''b'', 2)]\<rparr>)) = None
   \<and> set (keys_of (snd (pass_effect marking None
         ((run_effect marking False [(''a'', 1::nat)] [])\<lparr>input := [(''b'', 2)]\<rparr>))))
       = set (Object_keys [(''b'', 2::nat)])
   \<and> get_child (run_effect marking False [(''a'', 1::nat)] []) ''a'' = Some 1
   \<and> ''a'' \<notin> set (Object_keys [(''b'', 2::nat)])
   \<and> is_active (run_effect marking False [(''a'', 1::nat)] []) 1
   \<and> \<not> is_active (snd (pass_effect marking None
         ((run_effect marking False [(''a'', 1::nat)] [])\<lparr>input := [(''b'', 2)]\<rparr>))) 1"
proof -
  have h1: "fst (pass_effect marking None
         ((run_effect marking False [(''a'', 1::nat)] [])\<lparr>input := [(''b'', 2)]\<rparr>)) = None"
    by code_simp
  have h2: "get_child (run_effect marking False [(''a'', 1::nat)] []) ''a'' = Some 1"
    by code_simp
  have h3: "''a'' \<notin> set (Object_keys [(''b'', 2::nat)])"
    by (simp add: Object_keys_def)
  have h4: "is_active (run_effect marking False [(''a'', 1::nat)] []) 1"
    by code_simp
  from effect_pass_covers [OF h1] h1 h2 h3 h4 show ?thesis by blast
qed

section \<open>The returned function\<close>

text \<open>
  C2 (the returned function disposes every registered scope, cancels the watch and clears
  the registry). The \<^verbatim>\<open>watchEffect\<close> version returns the watcher's own handle: started on
  \<open>{a: 1}\<close>, calling it cancels the watch and nothing else; the scope of \<open>a\<close> stays live
  and registered, and its disposal hook has not fired. The function returned by the
  version of \<^verbatim>\<open>deep-reactivity.ts\<close>, on the same input, stops the scope and empties the
  registry.
\<close>

theorem effect_stop_leaves_scopes:
  "\<not> watching (run_effect marking False [(''a'', 1::nat)] [Dispose])
   \<and> keys_of (run_effect marking False [(''a'', 1::nat)] [Dispose]) = [''a'']
   \<and> get_child (run_effect marking False [(''a'', 1::nat)] [Dispose]) ''a'' = Some 1
   \<and> is_active (run_effect marking False [(''a'', 1::nat)] [Dispose]) 1
   \<and> trace (run_effect marking False [(''a'', 1::nat)] [Dispose]) =
       [Created 1 ''a'', Invoked ''a'' 1]
   \<and> keys_of (run_watch marking False [(''a'', 1::nat)] [Dispose]) = []
   \<and> \<not> is_active (run_watch marking False [(''a'', 1::nat)] [Dispose]) 1
   \<and> trace (run_watch marking False [(''a'', 1::nat)] [Dispose]) =
       [Created 1 ''a'', Invoked ''a'' 1, Stopped 0, Stopped 1, Fired 1 1]"
  by code_simp

section \<open>A key that comes back\<close>

text \<open>
  C4 (a key removed in one transition and re-added in a later one gets a brand-new scope,
  the old one having been disposed). In the version of \<^verbatim>\<open>deep-reactivity.ts\<close>, over
  \<open>{a: 1}\<close>, \<open>{}\<close>, \<open>{a: 1}\<close> the key \<open>a\<close> keeps the scope it was first given: one scope
  is ever created, the handler runs once, and no disposal hook fires. The \<^verbatim>\<open>watchEffect\<close>
  version, on the same input, stops scope 1 and gives \<open>a\<close> the new scope 2.
\<close>

theorem watch_reuses_scope_across_gap:
  "get_child (run_watch marking False [(''a'', 1::nat)] []) ''a'' = Some 1
   \<and> get_child (run_watch marking False [(''a'', 1::nat)] [Change [] None]) ''a'' = Some 1
   \<and> get_child (run_watch marking False [(''a'', 1::nat)]
         [Change [] None, Change [(''a'', 1)] None]) ''a'' = Some 1
   \<and> is_active (run_watch marking False [(''a'', 1::nat)]
         [Change [] None, Change [(''a'', 1)] None]) 1
   \<and> trace (run_watch marking False [(''a'', 1::nat)]
         [Change [] None, Change [(''a'', 1)] None]) = [Created 1 ''a'', Invoked ''a'' 1]
   \<and> get_child (run_effect marking False [(''a'', 1::nat)]
         [Change [] None, Change [(''a'', 1)] None]) ''a'' = Some 2
   \<and> trace (run_effect marking False [(''a'', 1::nat)]
         [Change [] None, Change [(''a'', 1)] None]) =
       [Created 1 ''a'', Invoked ''a'' 1, Stopped 1, Fired 1 1, Created 2 ''a'', Invoked ''a'' 2]"
  by code_simp

section \<open>One live scope per key\<close>

text \<open>
  C3 (at every point during or between passes a key has at most one live scope). In
  \<^verbatim>\<open>deep-reactivity.ts\<close> a handler that assigns the watched ref breaks this. Started on
  \<open>{a: 1, b: 2}\<close> with a handler that, for \<open>a\<close>, assigns \<open>{a: 1, b: 2, c: 3}\<close>: the
  first run computes \<^verbatim>\<open>keysToAdd\<close> as \<open>a, b\<close> and gives \<open>a\<close> scope 1; the assignment inside
  \<^verbatim>\<open>handler('a')\<close> runs the callback again, which gives \<open>b\<close> scope 2 and \<open>c\<close> scope 3; the
  outer loop then goes on to \<open>b\<close> without looking at the registry (lines 28-30) and gives
  it scope 4, overwriting the entry. Scopes 2 and 4 of \<open>b\<close> are both live, and scope 2 is
  no longer registered. The loop of the other version tests \<^verbatim>\<open>childScopes.has(key)\<close> in
  every turn (line 32).
\<close>

theorem watch_reentry_two_scopes:
  "map_option (\<lambda>(e, p, st). (e, childScopes st, live (trace st) ''b'', is_active st 2, is_active st 4))
     (useScopePerKey_watch_re 10 writing_on_a None (runtime0 [(''a'', 1::nat), (''b'', 2)]))
   = Some (None, [(''a'', 1), (''b'', 4), (''c'', 3)], {2, 4}, True, True)"
  by code_simp

text \<open>
  What does hold: with handlers that leave the watched ref alone, and with a scope marked
  inert before its callbacks run, every run of either version, through any changes of the
  object, calls of the returned function and stops of scopes by the surroundings, has at
  most one live scope of each key after every prefix of its trace, and at the end every
  live scope of a key is the one registered under it. The events of one pass of the
  \<^verbatim>\<open>watchEffect\<close> version are removals followed by additions; a pass of the \<^verbatim>\<open>watch\<close>
  version has additions only.
\<close>

theorem one_live_scope_per_key:
  assumes "distinct (Object_keys obj)" and "list_all well_formed acts"
  shows "(\<forall>p k. prefix p (trace (run_watch h inScope obj acts)) \<longrightarrow> card (live p k) \<le> 1)
       \<and> (\<forall>p k. prefix p (trace (run_effect h inScope obj acts)) \<longrightarrow> card (live p k) \<le> 1)
       \<and> (\<forall>k s. s \<in> live (trace (run_watch h inScope obj acts)) k \<longrightarrow>
              get_child (run_watch h inScope obj acts) k = Some s)
       \<and> (\<forall>k s. s \<in> live (trace (run_effect h inScope obj acts)) k \<longrightarrow>
              get_child (run_effect h inScope obj acts) k = Some s)
       \<and> (\<exists>r a. trace (snd (pass_effect h amb st)) = trace st @ r @ a
              \<and> list_all removal r \<and> list_all addition a)
       \<and> (\<exists>a. trace (snd (pass_watch h amb inputKeys st)) = trace st @ a \<and> list_all addition a)"
proof -
  have card1: "card (live p k) \<le> 1" if "unique_live p" for p :: "'a event list" and k
  proof -
    from that have "\<forall>s \<in> live p k. \<forall>t \<in> live p k. s = t" by (auto simp: unique_live_def)
    with finite_live [of p k] show ?thesis
      by (metis One_nat_def card_le_Suc0_iff_eq)
  qed
  have w: "coherent (run_watch h inScope obj acts)"
    using assms by (rule run_watch_coherent)
  have e: "coherent (run_effect h inScope obj acts)"
    by (rule run_effect_coherent)
  from w have 1: "\<forall>p k. prefix p (trace (run_watch h inScope obj acts)) \<longrightarrow> card (live p k) \<le> 1"
    unfolding coherent_def pfx_inv_def using card1 by blast
  from e have 2: "\<forall>p k. prefix p (trace (run_effect h inScope obj acts)) \<longrightarrow> card (live p k) \<le> 1"
    unfolding coherent_def pfx_inv_def using card1 by blast
  from w have 3: "\<forall>k s. s \<in> live (trace (run_watch h inScope obj acts)) k \<longrightarrow>
              get_child (run_watch h inScope obj acts) k = Some s"
    by (simp add: coherent_def reg_inv_def)
  from e have 4: "\<forall>k s. s \<in> live (trace (run_effect h inScope obj acts)) k \<longrightarrow>
              get_child (run_effect h inScope obj acts) k = Some s"
    by (simp add: coherent_def reg_inv_def)
  from 1 2 3 4 pass_effect_order [of h amb st] pass_watch_order [of h amb inputKeys st]
  show ?thesis by blast
qed


theorem one_live_scope_per_key_witness:
  "distinct (Object_keys [(''a'', 1::nat)])
   \<and> list_all well_formed [Change [] None, Change [(''a'', 1::nat)] None, Dispose]
   \<and> prefix [Created 1 ''a'', Invoked ''a'' 1, Stopped 1, Fired 1 1, Created 2 ''a'']
        (trace (run_effect marking False [(''a'', 1::nat)]
           [Change [] None, Change [(''a'', 1)] None, Dispose]))
   \<and> card (live [Created 1 ''a'', Invoked ''a'' 1, Stopped 1, Fired 1 1, Created 2 ''a''] ''a'') \<le> 1
   \<and> prefix [Created 1 ''a'', Invoked ''a'' 1]
        (trace (run_watch marking False [(''a'', 1::nat)]
           [Change [] None, Change [(''a'', 1)] None, Dispose]))
   \<and> card (live [Created 1 ''a'', Invoked ''a'' 1] ''a'') \<le> 1"
proof -
  have d: "distinct (Object_keys [(''a'', 1::nat)])"
    by (simp add: Object_keys_def)
  have w: "list_all well_formed [Change [] None, Change [(''a'', 1::nat)] None, Dispose]"
    by (simp add: well_formed_def Object_keys_def)
  have p1: "prefix [Created 1 ''a'', Invoked ''a'' 1, Stopped 1, Fired 1 1, Created 2 ''a'']
        (trace (run_effect marking False [(''a'', 1::nat)]
           [Change [] None, Change [(''a'', 1)] None, Dispose]))"
    by code_simp
  have p2: "prefix [Created 1 ''a'', Invoked ''a'' 1]
        (trace (run_watch marking False [(''a'', 1::nat)]
           [Change [] None, Change [(''a'', 1)] None, Dispose]))"
    by code_simp
  note T = one_live_scope_per_key [OF d w, where h = marking and inScope = False]
  from T p1 have c1:
    "card (live [Created 1 ''a'', Invoked ''a'' 1, Stopped 1, Fired 1 1, Created 2 ''a''] ''a'') \<le> 1"
    by blast
  from T p2 have c2: "card (live [Created 1 ''a'', Invoked ''a'' 1] ''a'') \<le> 1"
    by blast
  from d w p1 p2 c1 c2 show ?thesis by blast
qed

section \<open>What a pass leaves alone\<close>

text \<open>
  C10 (the reconciler never writes to the input ref or to the object it holds). In both
  versions the object held by \<^verbatim>\<open>input\<close> after a pass, after the returned function and after
  \<^verbatim>\<open>useScopePerKey\<close> itself is the object that was there before, whatever the handler
  registers or throws.
\<close>

theorem input_never_written:
  "input (snd (pass_watch h amb inputKeys st)) = input st
   \<and> input (snd (pass_effect h amb st)) = input st
   \<and> input (dispose_watch p st) = input st
   \<and> input (dispose_effect c st) = input st
   \<and> input (snd (call_returned_effect r st)) = input st
   \<and> input (snd (snd (useScopePerKey_watch h amb st))) = input st
   \<and> input (snd (snd (useScopePerKey_effect h amb st))) = input st"
proof -
  have a: "input (snd (pass_watch h amb inputKeys st)) = input st" for amb inputKeys and st :: "('a, 'b) runtime"
    by (simp add: pass_watch_def)
  have b: "input (snd (pass_effect h amb st)) = input st" for amb and st :: "('a, 'b) runtime"
    by (simp add: pass_effect_def Let_def)
  have c: "input (dispose_watch p st) = input st"
    by (simp add: dispose_watch_def stopScope_def)
  have d: "input (dispose_effect c st) = input st" for c
    by (simp add: dispose_effect_def)
  have e: "input (snd (snd (useScopePerKey_watch h amb st))) = input st"
    by (simp add: useScopePerKey_watch_def observe_watch_def Let_def case_prod_beta a)
  have f: "input (snd (snd (useScopePerKey_effect h amb st))) = input st"
    by (simp add: useScopePerKey_effect_def observe_effect_def Let_def case_prod_beta b
        split: option.splits)
  have g: "input (snd (call_returned_effect r st)) = input st"
    by (cases r) (simp_all add: call_returned_effect_def d)
  from a b c d e f g show ?thesis by simp
qed

text \<open>
  C8 (a pass that reads a key set equal to the registry's keys does nothing). In both
  versions such a pass returns normally with the very state it started from: no scope is
  created, none is stopped, the handler is not invoked (the trace is part of the state)
  and \<^verbatim>\<open>childScopes\<close> is as it was.
\<close>

theorem unchanged_keys_noop:
  assumes "set (Object_keys (input st)) = set (keys_of st)"
  shows "pass_watch h amb (Object_keys (input st)) st = (None, st)
         \<and> pass_effect h amb st = (None, st)"
proof -
  have "filter (\<lambda>key. \<not> has st key) (Object_keys (input st)) = []"
    using assms by (simp add: has_keys_of filter_empty_conv)
  then have a: "pass_watch h amb (Object_keys (input st)) st = (None, st)"
    by (simp add: pass_watch_def)
  have "filter (\<lambda>key. key \<notin> set (keys_of st)) (Object_keys (input st)) = []"
    using assms by (simp add: filter_empty_conv)
  moreover have "filter (\<lambda>key. key \<notin> set (Object_keys (input st))) (keys_of st) = []"
    using assms by (simp add: filter_empty_conv)
  ultimately have b: "pass_effect h amb st = (None, st)"
    by (simp add: pass_effect_def Let_def)
  from a b show ?thesis by simp
qed

theorem unchanged_keys_noop_witness:
  "set (Object_keys (input (run_effect marking False [(''a'', 1::nat), (''b'', 2)] [])))
     = set (keys_of (run_effect marking False [(''a'', 1::nat), (''b'', 2)] []))
   \<and> pass_watch marking None
        (Object_keys (input (run_effect marking False [(''a'', 1::nat), (''b'', 2)] [])))
        (run_effect marking False [(''a'', 1::nat), (''b'', 2)] [])
      = (None, run_effect marking False [(''a'', 1::nat), (''b'', 2)] [])
   \<and> pass_effect marking None (run_effect marking False [(''a'', 1::nat), (''b'', 2)] [])
      = (None, run_effect marking False [(''a'', 1::nat), (''b'', 2)] [])"
proof -
  have same: "set (Object_keys (input (run_effect marking False [(''a'', 1::nat), (''b'', 2)] [])))
     = set (keys_of (run_effect marking False [(''a'', 1::nat), (''b'', 2)] []))"
    by code_simp
  from unchanged_keys_noop [OF same, of marking None] same show ?thesis by simp
qed

section \<open>Calling the returned function again\<close>


text \<open>
  What does hold: with a scope marked inert before its callbacks run, the state after two
  calls of the returned function is the state after one, in both versions; a call of
  \<^verbatim>\<open>undefined\<close>, which the \<^verbatim>\<open>watchEffect\<close> version can return, fails each time and changes
  nothing.
\<close>

theorem dispose_twice:
  "dispose_watch p (dispose_watch p st) = dispose_watch p st
   \<and> dispose_effect c (dispose_effect c st) = dispose_effect c st
   \<and> call_returned_effect r (snd (call_returned_effect r st)) = call_returned_effect r st"
proof -
  have "\<not> is_active (stopScope p st) p"
    unfolding stopScope_def by (rule inactive_after_stop)
  then have "stopScope p (stopScope p st) = stopScope p st"
    by (simp add: stopScope_def [of p "stopScope p st"])
  moreover have twice: "dispose_effect c (dispose_effect c st) = dispose_effect c st" for c
    by (cases "c < length (heap st)")
      (simp_all add: dispose_effect_def upd_scope_def list_update_beyond)
  moreover have "call_returned_effect r (snd (call_returned_effect r st)) = call_returned_effect r st"
    by (cases r) (simp_all add: call_returned_effect_def twice)
  ultimately show ?thesis by (simp add: dispose_watch_def)
qed

section \<open>Exceptions of the handler\<close>

text \<open>
  C6 (an exception of the handler reaches the caller of the pass, and the key's scope
  stays registered so that it can still be disposed later). In \<^verbatim>\<open>deep-reactivity.ts\<close> the
  scope stays registered and is never disposed. Started on \<open>{}\<close> and shown \<open>{b: 2}\<close> with
  a handler that throws for \<open>b\<close>: the pass returns the failure and \<open>b\<close> is registered with
  scope 1. Shown \<open>{}\<close> next, the callback removes nothing; and the returned function, called
  twice, stops the parent scope only, since scope 1 was created outside
  \<^verbatim>\<open>parentScope.run\<close> and holds no self-removing hook. Scope 1 is still live and registered
  and its disposal hook has not fired, in either order of \<^verbatim>\<open>stop()\<close>. The \<^verbatim>\<open>watchEffect\<close>
  version, on the same input, stops scope 1 when \<open>b\<close> disappears.
\<close>

theorem watch_failed_scope_never_disposed:
  "fst (observe_watch failing_on_b None
          ((run_watch failing_on_b False ([] :: (string \<times> nat) list) [])\<lparr>input := [(''b'', 2)]\<rparr>))
     = Some (HandlerFailure ''b'')
   \<and> get_child (run_watch failing_on_b False ([] :: (string \<times> nat) list)
         [Change [(''b'', 2)] None]) ''b'' = Some 1
   \<and> get_child (run_watch failing_on_b False ([] :: (string \<times> nat) list)
         [Change [(''b'', 2)] None, Change [] None, Dispose, Dispose]) ''b'' = Some 1
   \<and> is_active (run_watch failing_on_b False ([] :: (string \<times> nat) list)
         [Change [(''b'', 2)] None, Change [] None, Dispose, Dispose]) 1
   \<and> trace (run_watch failing_on_b False ([] :: (string \<times> nat) list)
         [Change [(''b'', 2)] None, Change [] None, Dispose, Dispose])
       = [Created 1 ''b'', Invoked ''b'' 1, Stopped 0]
   \<and> map_option (\<lambda>st. (get_child st ''b'', is_active st 1, trace st))
         (dispose_watch_spec 3 0 (run_watch failing_on_b False ([] :: (string \<times> nat) list)
            [Change [(''b'', 2)] None, Change [] None]))
       = Some (Some 1, True, [Created 1 ''b'', Invoked ''b'' 1, Stopped 0])
   \<and> get_child (run_effect failing_on_b False ([] :: (string \<times> nat) list)
         [Change [(''b'', 2)] None, Change [] None]) ''b'' = None
   \<and> \<not> is_active (run_effect failing_on_b False ([] :: (string \<times> nat) list)
         [Change [(''b'', 2)] None, Change [] None]) 1
   \<and> trace (run_effect failing_on_b False ([] :: (string \<times> nat) list)
         [Change [(''b'', 2)] None, Change [] None])
       = [Created 1 ''b'', Invoked ''b'' 1, Stopped 1, Fired 1 1]"
  by code_simp

text \<open>
  What does hold of a handler that throws, in both versions: when the handler is invoked
  for \<open>key\<close> in scope \<open>s\<close> during a pass and throws there, the pass returns that failure,
  the invocation is the last event of the pass, \<open>key\<close> is registered with \<open>s\<close> and \<open>s\<close>
  is live; and the next pass, whatever it reads, does not invoke the handler for \<open>key\<close>.
\<close>

theorem handler_failure_propagates:
  assumes "throws (h key s)"
  shows "(Invoked key s \<in> set (new_events st (snd (pass_watch h amb inputKeys st))) \<longrightarrow>
            fst (pass_watch h amb inputKeys st) = Some (HandlerFailure key)
          \<and> get_child (snd (pass_watch h amb inputKeys st)) key = Some s
          \<and> is_active (snd (pass_watch h amb inputKeys st)) s
          \<and> last (trace (snd (pass_watch h amb inputKeys st))) = Invoked key s
          \<and> (\<forall>amb' keys' s'. Invoked key s' \<notin> set (new_events
                (snd (pass_watch h amb inputKeys st))
                (snd (pass_watch h amb' keys' (snd (pass_watch h amb inputKeys st)))))))
       \<and> (Invoked key s \<in> set (new_events st (snd (pass_effect h amb st))) \<longrightarrow>
            fst (pass_effect h amb st) = Some (HandlerFailure key)
          \<and> get_child (snd (pass_effect h amb st)) key = Some s
          \<and> is_active (snd (pass_effect h amb st)) s
          \<and> last (trace (snd (pass_effect h amb st))) = Invoked key s
          \<and> (\<forall>amb' obj' s'. Invoked key s' \<notin> set (new_events
                ((snd (pass_effect h amb st))\<lparr>input := obj'\<rparr>)
                (snd (pass_effect h amb' ((snd (pass_effect h amb st))\<lparr>input := obj'\<rparr>))))))"
proof (intro conjI impI)
  assume inv: "Invoked key s \<in> set (new_events st (snd (pass_watch h amb inputKeys st)))"
  note F = pass_watch_failure [OF inv assms]
  from F show "fst (pass_watch h amb inputKeys st) = Some (HandlerFailure key)"
    and "get_child (snd (pass_watch h amb inputKeys st)) key = Some s"
    and "is_active (snd (pass_watch h amb inputKeys st)) s"
    and "last (trace (snd (pass_watch h amb inputKeys st))) = Invoked key s"
    by blast+
  from F have "has (snd (pass_watch h amb inputKeys st)) key"
    by (simp add: has_get_child)
  then show "\<forall>amb' keys' s'. Invoked key s' \<notin> set (new_events
                (snd (pass_watch h amb inputKeys st))
                (snd (pass_watch h amb' keys' (snd (pass_watch h amb inputKeys st)))))"
    by (auto dest: pass_watch_invokes)
next
  assume inv: "Invoked key s \<in> set (new_events st (snd (pass_effect h amb st)))"
  note F = pass_effect_failure [OF inv assms]
  from F show "fst (pass_effect h amb st) = Some (HandlerFailure key)"
    and "get_child (snd (pass_effect h amb st)) key = Some s"
    and "is_active (snd (pass_effect h amb st)) s"
    and "last (trace (snd (pass_effect h amb st))) = Invoked key s"
    by blast+
  from F have "has ((snd (pass_effect h amb st))\<lparr>input := obj'\<rparr>) key" for obj'
    by (simp add: has_def get_child_def)
  then show "\<forall>amb' obj' s'. Invoked key s' \<notin> set (new_events
                ((snd (pass_effect h amb st))\<lparr>input := obj'\<rparr>)
                (snd (pass_effect h amb' ((snd (pass_effect h amb st))\<lparr>input := obj'\<rparr>))))"
    by (auto dest: pass_effect_invokes)
qed


theorem handler_failure_propagates_witness:
  "throws (failing_on_b ''b'' 2)
   \<and> Invoked ''b'' 2 \<in> set (new_events (run_watch failing_on_b False [(''a'', 1::nat)] [])
         (snd (pass_watch failing_on_b None [''a'', ''b'', ''c'']
                 (run_watch failing_on_b False [(''a'', 1::nat)] []))))
   \<and> fst (pass_watch failing_on_b None [''a'', ''b'', ''c'']
            (run_watch failing_on_b False [(''a'', 1::nat)] [])) = Some (HandlerFailure ''b'')
   \<and> get_child (snd (pass_watch failing_on_b None [''a'', ''b'', ''c'']
            (run_watch failing_on_b False [(''a'', 1::nat)] []))) ''b'' = Some 2
   \<and> Invoked ''b'' 2 \<in> set (new_events
         ((run_effect failing_on_b False [(''a'', 1::nat)] [])\<lparr>input := [(''b'', 2), (''c'', 3)]\<rparr>)
         (snd (pass_effect failing_on_b None
            ((run_effect failing_on_b False [(''a'', 1::nat)] [])\<lparr>input := [(''b'', 2), (''c'', 3)]\<rparr>))))
   \<and> fst (pass_effect failing_on_b None
            ((run_effect failing_on_b False [(''a'', 1::nat)] [])\<lparr>input := [(''b'', 2), (''c'', 3)]\<rparr>))
       = Some (HandlerFailure ''b'')
   \<and> get_child (snd (pass_effect failing_on_b None
            ((run_effect failing_on_b False [(''a'', 1::nat)] [])\<lparr>input := [(''b'', 2), (''c'', 3)]\<rparr>)))
         ''b'' = Some 2"
proof -
  have t: "throws (failing_on_b ''b'' 2)"
    by (simp add: failing_on_b_def)
  have m1: "Invoked ''b'' 2 \<in> set (new_events (run_watch failing_on_b False [(''a'', 1::nat)] [])
         (snd (pass_watch failing_on_b None [''a'', ''b'', ''c'']
                 (run_watch failing_on_b False [(''a'', 1::nat)] []))))"
    by code_simp
  have m2: "Invoked ''b'' 2 \<in> set (new_events
         ((run_effect failing_on_b False [(''a'', 1::nat)] [])\<lparr>input := [(''b'', 2), (''c'', 3)]\<rparr>)
         (snd (pass_effect failing_on_b None
            ((run_effect failing_on_b False [(''a'', 1::nat)] [])\<lparr>input := [(''b'', 2), (''c'', 3)]\<rparr>))))"
    by code_simp
  note T = handler_failure_propagates [where h = failing_on_b and key = "''b''" and s = 2, OF t]
  from T m1 have a: "fst (pass_watch failing_on_b None [''a'', ''b'', ''c'']
            (run_watch failing_on_b False [(''a'', 1::nat)] [])) = Some (HandlerFailure ''b'')
     \<and> get_child (snd (pass_watch failing_on_b None [''a'', ''b'', ''c'']
            (run_watch failing_on_b False [(''a'', 1::nat)] []))) ''b'' = Some 2"
    by blast
  from T m2 have b: "fst (pass_effect failing_on_b None
            ((run_effect failing_on_b False [(''a'', 1::nat)] [])\<lparr>input := [(''b'', 2), (''c'', 3)]\<rparr>))
       = Some (HandlerFailure ''b'')
     \<and> get_child (snd (pass_effect failing_on_b None
            ((run_effect failing_on_b False [(''a'', 1::nat)] [])\<lparr>input := [(''b'', 2), (''c'', 3)]\<rparr>)))
         ''b'' = Some 2"
    by blast
  from t m1 m2 a b show ?thesis by blast
qed


section \<open>The self-removing hook and a reassigned key\<close>




end
